theory Spec2Isabelle
  imports Complex_Main "HOL-Library.Multiset"
begin

section \<open>Strings\<close>

text \<open>
  A JavaScript string is a sequence of code units. The model uses \<open>string\<close>, whose
  characters are the code units below 256; among these, \<open>String.prototype.trim\<close>
  removes TAB, LF, VT, FF, CR, SPACE and NO-BREAK SPACE.
\<close>

definition isWhiteSpace :: "char \<Rightarrow> bool" where
  "isWhiteSpace c \<longleftrightarrow>
     c = CHR 0x09 \<or> c = CHR 0x0A \<or> c = CHR 0x0B \<or> c = CHR 0x0C \<or> c = CHR 0x0D
     \<or> c = CHR 0x20 \<or> c = CHR 0xA0"

definition trim :: "string \<Rightarrow> string" where
  "trim s = rev (dropWhile isWhiteSpace (rev (dropWhile isWhiteSpace s)))"

text \<open>\<open>s.split(d)\<close> for a one-character separator: \<open>''''.split(';')\<close> is \<open>['''']\<close>.\<close>

fun splitOn :: "char \<Rightarrow> string \<Rightarrow> string list" where
  "splitOn d [] = [[]]"
| "splitOn d (c # cs) =
     (if c = d then [] # splitOn d cs
      else (case splitOn d cs of
              [] \<Rightarrow> [[c]]
            | p # ps \<Rightarrow> (c # p) # ps))"

text \<open>\<open>ps.join(d)\<close>, the inverse of \<open>split\<close>.\<close>

fun joinWith :: "char \<Rightarrow> string list \<Rightarrow> string" where
  "joinWith d [] = []"
| "joinWith d [p] = p"
| "joinWith d (p # q # ps) = p @ d # joinWith d (q # ps)"

text \<open>\<open>xs.findIndex(P)\<close>: the position of the first element satisfying \<open>P\<close>, or \<open>-1\<close>.\<close>

fun findIndex :: "('a \<Rightarrow> bool) \<Rightarrow> 'a list \<Rightarrow> int" where
  "findIndex P [] = - 1"
| "findIndex P (x # xs) =
     (if P x then 0
      else (let i = findIndex P xs in if i < 0 then - 1 else i + 1))"

section \<open>Data model\<close>

text \<open>
  \<open>interface ApiKeyInfo\<close>. \<open>lastUsed\<close> is a \<open>Date\<close>, modelled by its time value in
  milliseconds; an absent optional field is \<open>None\<close>. \<open>errorCount\<close> is only ever
  assigned \<open>0\<close> or incremented, so it is a natural number.
\<close>

record ApiKeyInfo =
  key :: string
  index :: nat
  isActive :: bool
  errorCount :: nat
  lastUsed :: "nat option"
  lastError :: "string option"

datatype RotationStrategy = RoundRobin | LeastErrors | Random

record ApiKeyManagerConfig =
  rotationStrategy :: RotationStrategy
  maxErrorsPerKey :: int
  cooldownPeriod :: int

text \<open>\<open>Partial<ApiKeyManagerConfig>\<close>: every field may be absent.\<close>

record PartialApiKeyManagerConfig =
  rotationStrategy_opt :: "RotationStrategy option"
  maxErrorsPerKey_opt :: "int option"
  cooldownPeriod_opt :: "int option"

text \<open>
  The private fields of \<open>class ApiKeyManager\<close>. An \<open>ApiKeyInfo\<close> object is referred to by
  its position in \<open>apiKeys\<close>: the array is created once by \<open>parseApiKeys\<close> and never
  reordered, so a position identifies one object for the lifetime of the manager.
\<close>

record ApiKeyManager =
  apiKeys :: "ApiKeyInfo list"
  currentIndex :: nat
  config :: ApiKeyManagerConfig

text \<open>
  The exceptions of the class, one constructor per message:
  \<open>'No API keys provided'\<close>, \<open>'No valid API keys found after parsing'\<close>,
  \<open>'No active API keys available'\<close>, \<open>'No active API keys available for rotation'\<close>;
  \<open>TypeError\<close> is what reading \<open>.index\<close> of \<open>undefined\<close> throws.
\<close>

datatype error =
    NoApiKeysProvided
  | NoValidApiKeysFound
  | NoActiveApiKeys
  | NoActiveApiKeysForRotation
  | TypeError

section \<open>Construction\<close>

definition defaultConfig :: ApiKeyManagerConfig where
  "defaultConfig =
     \<lparr>rotationStrategy = RoundRobin, maxErrorsPerKey = 3, cooldownPeriod = 60000\<rparr>"

text \<open>The object spread \<open>{ ...defaults, ...config }\<close>.\<close>

definition mergeConfig :: "PartialApiKeyManagerConfig \<Rightarrow> ApiKeyManagerConfig" where
  "mergeConfig c =
     \<lparr>rotationStrategy =
        (case rotationStrategy_opt c of None \<Rightarrow> rotationStrategy defaultConfig | Some v \<Rightarrow> v),
      maxErrorsPerKey =
        (case maxErrorsPerKey_opt c of None \<Rightarrow> maxErrorsPerKey defaultConfig | Some v \<Rightarrow> v),
      cooldownPeriod =
        (case cooldownPeriod_opt c of None \<Rightarrow> cooldownPeriod defaultConfig | Some v \<Rightarrow> v)\<rparr>"

definition emptyConfig :: PartialApiKeyManagerConfig where
  "emptyConfig =
     \<lparr>rotationStrategy_opt = None, maxErrorsPerKey_opt = None, cooldownPeriod_opt = None\<rparr>"

definition newKeyInfo :: "nat \<times> string \<Rightarrow> ApiKeyInfo" where
  "newKeyInfo p =
     \<lparr>key = snd p, index = fst p, isActive = True, errorCount = 0,
      lastUsed = None, lastError = None\<rparr>"

definition splitKeys :: "string \<Rightarrow> string list" where
  "splitKeys apiKeysString =
     filter (\<lambda>k. length k > 0) (map trim (splitOn CHR '';'' apiKeysString))"

definition parseApiKeys :: "string \<Rightarrow> error + ApiKeyInfo list" where
  "parseApiKeys apiKeysString =
     (if apiKeysString = [] \<or> trim apiKeysString = [] then Inl NoApiKeysProvided
      else let keys = splitKeys apiKeysString in
        if length keys = 0 then Inl NoValidApiKeysFound
        else Inr (map newKeyInfo (enumerate 0 keys)))"

text \<open>
  \<open>new ApiKeyManager(apiKeysString, config)\<close>; the default parameter \<open>config = {}\<close> is
  \<open>emptyConfig\<close>. A throwing constructor yields no object.
\<close>

definition new_ApiKeyManager ::
  "string \<Rightarrow> PartialApiKeyManagerConfig \<Rightarrow> error + ApiKeyManager" where
  "new_ApiKeyManager apiKeysString c =
     (case parseApiKeys apiKeysString of
        Inl e \<Rightarrow> Inl e
      | Inr ks \<Rightarrow> Inr \<lparr>apiKeys = ks, currentIndex = 0, config = mergeConfig c\<rparr>)"

section \<open>The validator\<close>

text \<open>
  \<open>parseAndValidateApiKeys\<close> of the command line's \<open>config/auth.ts\<close>, the validator that
  runs before the manager is constructed. Its \<open>error\<close> is a message; the model keeps
  which message it is, and the number the third one mentions.
\<close>

datatype validationError =
    NoKeysProvided
  | NoValidKeysFound
  | KeysAppearInvalid nat

record ValidationResult =
  isValid :: bool
  keyCount :: nat
  error :: "validationError option"

definition parseAndValidateApiKeys :: "string \<Rightarrow> ValidationResult" where
  "parseAndValidateApiKeys apiKeysString =
     (if apiKeysString = [] \<or> trim apiKeysString = []
      then \<lparr>isValid = False, keyCount = 0, error = Some NoKeysProvided\<rparr>
      else let keys = splitKeys apiKeysString in
        if length keys = 0
        then \<lparr>isValid = False, keyCount = 0, error = Some NoValidKeysFound\<rparr>
        else let invalidKeys = filter (\<lambda>k. length k < 8) keys in
          if length invalidKeys > 0
          then \<lparr>isValid = False, keyCount = length keys,
                error = Some (KeysAppearInvalid (length invalidKeys))\<rparr>
          else \<lparr>isValid = True, keyCount = length keys, error = None\<rparr>)"

section \<open>Operations\<close>

text \<open>\<open>getActiveKeys\<close>: the references to the active objects, in array order.\<close>

definition getActiveKeys :: "ApiKeyManager \<Rightarrow> nat list" where
  "getActiveKeys m = filter (\<lambda>p. isActive (apiKeys m ! p)) [0..<length (apiKeys m)]"

text \<open>\<open>activeKeys.find(k => k.index === this.currentIndex) || activeKeys[0]\<close>,
  evaluated only where \<open>activeKeys\<close> is not empty.\<close>

definition currentKeyOf :: "ApiKeyManager \<Rightarrow> nat list \<Rightarrow> nat" where
  "currentKeyOf m activeKeys =
     (case find (\<lambda>p. index (apiKeys m ! p) = currentIndex m) activeKeys of
        Some p \<Rightarrow> p
      | None \<Rightarrow> activeKeys ! 0)"

text \<open>\<open>getCurrentApiKey\<close>; \<open>now\<close> is the time value of \<open>new Date()\<close>.\<close>

definition getCurrentApiKey :: "nat \<Rightarrow> ApiKeyManager \<Rightarrow> error + string \<times> ApiKeyManager" where
  "getCurrentApiKey now m =
     (let activeKeys = getActiveKeys m in
      if length activeKeys = 0 then Inl NoActiveApiKeys
      else let currentKey = currentKeyOf m activeKeys;
               ks = (apiKeys m)[currentKey := (apiKeys m ! currentKey)\<lparr>lastUsed := Some now\<rparr>]
           in Inr (key (ks ! currentKey), m\<lparr>apiKeys := ks\<rparr>))"

definition getCurrentApiKeyInfo :: "ApiKeyManager \<Rightarrow> error + ApiKeyInfo" where
  "getCurrentApiKeyInfo m =
     (let activeKeys = getActiveKeys m in
      if length activeKeys = 0 then Inl NoActiveApiKeys
      else Inr (apiKeys m ! currentKeyOf m activeKeys))"

definition rotateRoundRobin :: "ApiKeyManager \<Rightarrow> nat list \<Rightarrow> ApiKeyManager" where
  "rotateRoundRobin m activeKeys =
     (let currentActiveIndex = findIndex (\<lambda>p. index (apiKeys m ! p) = currentIndex m) activeKeys;
          nextActiveIndex = (currentActiveIndex + 1) mod int (length activeKeys)
      in m\<lparr>currentIndex := index (apiKeys m ! (activeKeys ! nat nextActiveIndex))\<rparr>)"

text \<open>\<open>Array.prototype.sort\<close> is stable, as \<open>sort_key\<close> is.\<close>

definition rotateLeastErrors :: "ApiKeyManager \<Rightarrow> nat list \<Rightarrow> ApiKeyManager" where
  "rotateLeastErrors m activeKeys =
     (let sortedKeys = sort_key (\<lambda>p. errorCount (apiKeys m ! p)) activeKeys
      in m\<lparr>currentIndex := index (apiKeys m ! (sortedKeys ! 0))\<rparr>)"

text \<open>\<open>rotateRandom\<close>; \<open>u\<close> is the value of \<open>Math.random()\<close>, and the product is the
  exact one. An index outside the array reads \<open>undefined\<close>, whose \<open>.index\<close> throws before
  \<open>currentIndex\<close> is assigned.\<close>

definition rotateRandom :: "real \<Rightarrow> ApiKeyManager \<Rightarrow> nat list \<Rightarrow> error + ApiKeyManager" where
  "rotateRandom u m activeKeys =
     (let randomIndex = \<lfloor>u * real (length activeKeys)\<rfloor> in
      if 0 \<le> randomIndex \<and> randomIndex < int (length activeKeys)
      then Inr (m\<lparr>currentIndex := index (apiKeys m ! (activeKeys ! nat randomIndex))\<rparr>)
      else Inl TypeError)"

definition rotateApiKey ::
  "nat \<Rightarrow> real \<Rightarrow> ApiKeyManager \<Rightarrow> error + string \<times> ApiKeyManager" where
  "rotateApiKey now u m =
     (let activeKeys = getActiveKeys m in
      if length activeKeys = 0 then Inl NoActiveApiKeysForRotation
      else (case (case rotationStrategy (config m) of
                    RoundRobin \<Rightarrow> Inr (rotateRoundRobin m activeKeys)
                  | LeastErrors \<Rightarrow> Inr (rotateLeastErrors m activeKeys)
                  | Random \<Rightarrow> rotateRandom u m activeKeys) of
              Inl e \<Rightarrow> Inl e
            | Inr m' \<Rightarrow> getCurrentApiKey now m'))"

text \<open>\<open>reportError\<close>; \<open>this.apiKeys.find\<close> yields the first object whose index is
  \<open>currentIndex\<close>. The \<open>console.warn\<close> message is not part of the state.\<close>

definition reportError :: "string \<Rightarrow> ApiKeyManager \<Rightarrow> ApiKeyManager" where
  "reportError err m =
     (case find (\<lambda>p. index (apiKeys m ! p) = currentIndex m) [0..<length (apiKeys m)] of
        None \<Rightarrow> m
      | Some currentKey \<Rightarrow>
          (let k = apiKeys m ! currentKey;
               k1 = k\<lparr>errorCount := errorCount k + 1, lastError := Some err\<rparr>;
               k2 = (if int (errorCount k1) \<ge> maxErrorsPerKey (config m)
                     then k1\<lparr>isActive := False\<rparr> else k1)
           in m\<lparr>apiKeys := (apiKeys m)[currentKey := k2]\<rparr>))"

definition getAllApiKeysStatus :: "ApiKeyManager \<Rightarrow> ApiKeyInfo list" where
  "getAllApiKeysStatus m = map (\<lambda>k. k) (apiKeys m)"

definition getActiveKeyCount :: "ApiKeyManager \<Rightarrow> nat" where
  "getActiveKeyCount m = length (getActiveKeys m)"

definition getTotalKeyCount :: "ApiKeyManager \<Rightarrow> nat" where
  "getTotalKeyCount m = length (apiKeys m)"

definition resetErrorCounts :: "ApiKeyManager \<Rightarrow> ApiKeyManager" where
  "resetErrorCounts m =
     m\<lparr>apiKeys := map (\<lambda>k. k\<lparr>errorCount := 0, isActive := True, lastError := None\<rparr>) (apiKeys m)\<rparr>"

definition maskApiKey :: "string \<Rightarrow> string" where
  "maskApiKey apiKey =
     (if length apiKey \<le> 12 then replicate (length apiKey) CHR ''*''
      else take 8 apiKey @ replicate (length apiKey - 12) CHR ''*''
           @ drop (length apiKey - 4) apiKey)"

section \<open>The global instance\<close>

text \<open>
  The module variable \<open>globalApiKeyManager\<close> is \<open>None\<close> for \<open>null\<close>. The assignment in
  \<open>initializeApiKeyManager\<close> happens after the constructor has returned; when the
  constructor throws, the exception leaves the function before the assignment.
\<close>

definition initializeApiKeyManager ::
  "string \<Rightarrow> PartialApiKeyManagerConfig option \<Rightarrow> ApiKeyManager option
     \<Rightarrow> (error + ApiKeyManager) \<times> ApiKeyManager option" where
  "initializeApiKeyManager apiKeysString c globalApiKeyManager =
     (case new_ApiKeyManager apiKeysString (case c of None \<Rightarrow> emptyConfig | Some c' \<Rightarrow> c') of
        Inl e \<Rightarrow> (Inl e, globalApiKeyManager)
      | Inr m \<Rightarrow> (Inr m, Some m))"

definition getApiKeyManager :: "ApiKeyManager option \<Rightarrow> ApiKeyManager option" where
  "getApiKeyManager globalApiKeyManager = globalApiKeyManager"

definition hasMultipleApiKeys :: "ApiKeyManager option \<Rightarrow> bool" where
  "hasMultipleApiKeys globalApiKeyManager =
     (case globalApiKeyManager of None \<Rightarrow> False | Some m \<Rightarrow> getTotalKeyCount m > 1)"

section \<open>Sequences of calls\<close>

text \<open>
  A call of a public method, with what the environment supplies to it (the clock, the
  random number). \<open>exec\<close> is the state of the manager after the call; a call that throws
  does so before it has assigned anything.
\<close>

datatype call =
    GetCurrentApiKey nat
  | GetCurrentApiKeyInfo
  | RotateApiKey nat real
  | ReportError string
  | ResetErrorCounts
  | GetAllApiKeysStatus
  | GetActiveKeyCount
  | GetTotalKeyCount
  | MaskApiKey string

fun exec :: "call \<Rightarrow> ApiKeyManager \<Rightarrow> ApiKeyManager" where
  "exec (GetCurrentApiKey now) m =
     (case getCurrentApiKey now m of Inl e \<Rightarrow> m | Inr r \<Rightarrow> snd r)"
| "exec (RotateApiKey now u) m =
     (case rotateApiKey now u m of Inl e \<Rightarrow> m | Inr r \<Rightarrow> snd r)"
| "exec (ReportError err) m = reportError err m"
| "exec ResetErrorCounts m = resetErrorCounts m"
| "exec c m = m"

fun run :: "call list \<Rightarrow> ApiKeyManager \<Rightarrow> ApiKeyManager" where
  "run [] m = m"
| "run (c # cs) m = run cs (exec c m)"

section \<open>Invariants\<close>

text \<open>In every state reached from a construction, a credential is inactive only with an
  error count at or over the threshold.\<close>

definition overThreshold :: "ApiKeyManager \<Rightarrow> bool" where
  "overThreshold m \<longleftrightarrow>
     (\<forall>q<length (apiKeys m). \<not> isActive (apiKeys m ! q)
        \<longrightarrow> maxErrorsPerKey (config m) \<le> int (errorCount (apiKeys m ! q)))"

section \<open>Example states\<close>

definition exampleKeys :: "ApiKeyInfo list" where
  "exampleKeys = [newKeyInfo (0, ''k1''), newKeyInfo (1, ''k2''), newKeyInfo (2, ''k3'')]"

definition exampleManager :: "PartialApiKeyManagerConfig \<Rightarrow> ApiKeyManager" where
  "exampleManager c = \<lparr>apiKeys = exampleKeys, currentIndex = 0, config = mergeConfig c\<rparr>"

definition oneError :: PartialApiKeyManagerConfig where
  "oneError = emptyConfig\<lparr>maxErrorsPerKey_opt := Some 1\<rparr>"

definition exhausted :: ApiKeyManager where
  "exhausted =
     run [ReportError ''a'', RotateApiKey 1 0, ReportError ''b'', RotateApiKey 2 0,
          ReportError ''c''] (exampleManager oneError)"

definition randomly :: PartialApiKeyManagerConfig where
  "randomly = emptyConfig\<lparr>rotationStrategy_opt := Some Random\<rparr>"

definition rotations :: "(nat \<times> real) list \<Rightarrow> call list" where
  "rotations env = map (\<lambda>(now, u). RotateApiKey now u) env"

definition byLeastErrors :: PartialApiKeyManagerConfig where
  "byLeastErrors = emptyConfig\<lparr>rotationStrategy_opt := Some LeastErrors\<rparr>"

definition twoTwoZero :: ApiKeyManager where
  "twoTwoZero =
     run [ReportError ''a'', ReportError ''b'', RotateApiKey 1 0, ReportError ''c'',
          ReportError ''d''] (exampleManager byLeastErrors)"

section \<open>Properties of the string functions\<close>

text \<open>
  \<open>trim\<close> removes exactly a whitespace prefix and a whitespace suffix, and what is left
  neither starts nor ends with whitespace; \<open>splitOn\<close> cuts at every separator and at
  nothing else.
\<close>

lemma dropWhile_hd_not: "dropWhile P xs \<noteq> [] \<Longrightarrow> \<not> P (hd (dropWhile P xs))"
  by (simp add: hd_dropWhile)

lemma trim_Nil_iff: "trim s = [] \<longleftrightarrow> (\<forall>c\<in>set s. isWhiteSpace c)"
proof
  assume "trim s = []"
  then have all: "\<forall>c\<in>set (dropWhile isWhiteSpace s). isWhiteSpace c"
    by (simp add: trim_def dropWhile_eq_Nil_conv)
  have "dropWhile isWhiteSpace s = []"
  proof (rule ccontr)
    assume ne: "dropWhile isWhiteSpace s \<noteq> []"
    then have "\<not> isWhiteSpace (hd (dropWhile isWhiteSpace s))"
      by (rule dropWhile_hd_not)
    moreover have "hd (dropWhile isWhiteSpace s) \<in> set (dropWhile isWhiteSpace s)"
      using ne by simp
    ultimately show False using all by blast
  qed
  then show "\<forall>c\<in>set s. isWhiteSpace c"
    by (simp add: dropWhile_eq_Nil_conv)
next
  assume "\<forall>c\<in>set s. isWhiteSpace c"
  then have "dropWhile isWhiteSpace s = []" by simp
  then show "trim s = []"
    by (simp add: trim_def del: dropWhile_eq_Nil_conv)
qed

lemma trim_decompose:
  "\<exists>a b. s = a @ trim s @ b \<and> (\<forall>c\<in>set a. isWhiteSpace c) \<and> (\<forall>c\<in>set b. isWhiteSpace c)"
proof -
  let ?a = "takeWhile isWhiteSpace s"
  let ?r = "dropWhile isWhiteSpace s"
  let ?b = "rev (takeWhile isWhiteSpace (rev ?r))"
  have "rev ?r = takeWhile isWhiteSpace (rev ?r) @ dropWhile isWhiteSpace (rev ?r)"
    by simp
  then have "?r = rev (dropWhile isWhiteSpace (rev ?r)) @ ?b"
    by (metis rev_append rev_rev_ident)
  then have "s = ?a @ trim s @ ?b"
    by (metis takeWhile_dropWhile_id trim_def)
  moreover have "\<forall>c\<in>set ?a. isWhiteSpace c"
    by (meson set_takeWhileD)
  moreover have "\<forall>c\<in>set ?b. isWhiteSpace c"
    by (metis set_rev set_takeWhileD)
  ultimately show ?thesis by blast
qed

lemma trim_ends:
  assumes "trim s \<noteq> []"
  shows "\<not> isWhiteSpace (hd (trim s))" and "\<not> isWhiteSpace (last (trim s))"
proof -
  let ?r = "dropWhile isWhiteSpace s"
  let ?t = "dropWhile isWhiteSpace (rev ?r)"
  from assms have t: "?t \<noteq> []" by (simp add: trim_def)
  then have "\<not> isWhiteSpace (hd ?t)" by (rule dropWhile_hd_not)
  then show "\<not> isWhiteSpace (last (trim s))"
    using t by (simp add: trim_def last_rev)
  from t have r: "?r \<noteq> []"
    by (metis dropWhile.simps(1) rev.simps(1))
  then have nh: "\<not> isWhiteSpace (hd ?r)" by (rule dropWhile_hd_not)
  have "rev ?r = takeWhile isWhiteSpace (rev ?r) @ ?t" by simp
  then have "?r = rev ?t @ rev (takeWhile isWhiteSpace (rev ?r))"
    by (metis rev_append rev_rev_ident)
  moreover have "rev ?t \<noteq> []" using t by simp
  ultimately have "hd ?r = hd (rev ?t)"
    by (metis hd_append2)
  then show "\<not> isWhiteSpace (hd (trim s))"
    using nh by (simp add: trim_def)
qed

lemma splitOn_not_Nil: "splitOn d s \<noteq> []"
  by (induction s) (auto split: list.splits)

lemma length_splitOn: "length (splitOn d s) = Suc (count_list s d)"
  by (induction s) (auto split: list.splits simp: splitOn_not_Nil)

lemma splitOn_no_separator: "p \<in> set (splitOn d s) \<Longrightarrow> d \<notin> set p"
  by (induction s arbitrary: p) (auto split: list.splits if_splits)

lemma joinWith_splitOn: "joinWith d (splitOn d s) = s"
proof (induction s)
  case Nil
  then show ?case by simp
next
  case (Cons c cs)
  obtain p ps where sp: "splitOn d cs = p # ps"
    using splitOn_not_Nil by (cases "splitOn d cs") auto
  show ?case
  proof (cases "c = d")
    case True
    with Cons sp show ?thesis by simp
  next
    case False
    with Cons sp show ?thesis by (cases ps) auto
  qed
qed

section \<open>Auxiliary facts about lists\<close>

lemma find_in_set: "find P xs = Some x \<Longrightarrow> x \<in> set xs \<and> P x"
  by (induction xs) (auto split: if_splits)

lemma find_None_iff': "find P xs = None \<longleftrightarrow> (\<forall>x\<in>set xs. \<not> P x)"
  by (induction xs) auto

lemma find_upt_Some:
  "find P [0..<n] = Some p \<longleftrightarrow> p < n \<and> P p \<and> (\<forall>q<p. \<not> P q)"
  by (auto simp: find_Some_iff)

lemma find_upt_None: "find P [0..<n] = None \<longleftrightarrow> (\<forall>q<n. \<not> P q)"
  by (auto simp: find_None_iff)

lemma findIndex_bounds: "- 1 \<le> findIndex P xs \<and> findIndex P xs < int (length xs)"
  by (induction xs) (auto simp: Let_def)

lemma findIndex_first:
  "i < length xs \<Longrightarrow> P (xs ! i) \<Longrightarrow> \<forall>j<i. \<not> P (xs ! j) \<Longrightarrow> findIndex P xs = int i"
proof (induction xs arbitrary: i)
  case Nil
  then show ?case by simp
next
  case (Cons x xs)
  show ?case
  proof (cases i)
    case 0
    with Cons.prems show ?thesis by simp
  next
    case (Suc k)
    with Cons.prems have "\<not> P x" by auto
    moreover have "findIndex P xs = int k"
      using Cons.prems Suc by (intro Cons.IH) auto
    ultimately show ?thesis using Suc by (simp add: Let_def)
  qed
qed

lemma findIndex_none: "\<forall>x\<in>set xs. \<not> P x \<Longrightarrow> findIndex P xs = - 1"
  by (induction xs) (auto simp: Let_def)

lemma filter_upt_first:
  assumes "f < n" and "P f" and "\<forall>j<f. \<not> P j"
  shows "filter P [0..<n] = f # filter P [Suc f..<n]"
proof -
  have "[0..<n] = [0..<f] @ f # [Suc f..<n]"
    using assms(1) by (metis le_add1 less_imp_add_positive plus_nat.add_0 upt_add_eq_append upt_conv_Cons)
  moreover have "filter P [0..<f] = []" using assms(3) by simp
  ultimately show ?thesis using assms(2) by simp
qed

lemma map_update_same:
  "f y = f (xs ! q) \<Longrightarrow> map f (xs[q := y]) = map f xs"
  by (metis list_update_id map_update)

lemma nth_of_map_eq:
  "map f xs = map f ys \<Longrightarrow> q < length ys \<Longrightarrow> f (xs ! q) = f (ys ! q)"
  by (metis length_map nth_map)

lemma index_nth:
  "map index ks = [0..<length ks] \<Longrightarrow> q < length ks \<Longrightarrow> index (ks ! q) = q"
  by (metis add_0 length_map nth_map nth_upt)

lemma all_active_map:
  "(\<forall>k\<in>set ks. isActive k) \<longleftrightarrow> (\<forall>b\<in>set (map isActive ks). b)"
  by simp

lemma sort_key_first:
  fixes f :: "'a \<Rightarrow> nat"
  assumes "xs \<noteq> []"
  shows "sort_key f xs ! 0 \<in> set xs"
    and "\<forall>y\<in>set xs. f (sort_key f xs ! 0) \<le> f y"
    and "sort_key f xs ! 0 = hd (filter (\<lambda>y. f y = f (sort_key f xs ! 0)) xs)"
proof -
  have "sort_key f xs \<noteq> []" using assms by (metis length_0_conv length_sort)
  then obtain a t where s: "sort_key f xs = a # t" by (cases "sort_key f xs") auto
  have sx: "set xs = insert a (set t)" using set_sort [of f xs] by (simp add: s)
  then show "sort_key f xs ! 0 \<in> set xs" by (simp add: s)
  have "sorted (map f (a # t))" using sorted_sort_key [of f xs] by (simp add: s)
  then have le: "\<forall>y\<in>set t. f a \<le> f y" by simp
  from sx show "\<forall>y\<in>set xs. f (sort_key f xs ! 0) \<le> f y" using le by (simp add: s)
  have "filter (\<lambda>y. f y = f a) xs = filter (\<lambda>y. f y = f a) (a # t)"
    using sort_key_stable [of f "f a" xs] by (simp add: s)
  also have "\<dots> = a # filter (\<lambda>y. f y = f a) t" by simp
  finally have "hd (filter (\<lambda>y. f y = f a) xs) = a" by simp
  then show "sort_key f xs ! 0 = hd (filter (\<lambda>y. f y = f (sort_key f xs ! 0)) xs)"
    by (simp add: s)
qed

lemma hd_filter_least:
  fixes xs :: "nat list"
  assumes "sorted xs" and "y \<in> set xs" and "Q y"
  shows "hd (filter Q xs) \<le> y"
proof -
  have y: "y \<in> set (filter Q xs)" using assms by simp
  then obtain a t where ft: "filter Q xs = a # t" by (cases "filter Q xs") auto
  have "sorted (a # t)" using assms(1) sorted_wrt_filter [of "(\<le>)" xs Q] by (simp add: ft)
  then have "\<forall>z\<in>set t. a \<le> z" by simp
  then show ?thesis using y by (auto simp: ft)
qed

section \<open>Construction from the raw string\<close>

lemma parseApiKeys_fields:
  "map key (map newKeyInfo (enumerate 0 keys)) = keys"
  "map index (map newKeyInfo (enumerate 0 keys)) = [0..<length keys]"
  "k \<in> set (map newKeyInfo (enumerate 0 keys)) \<Longrightarrow>
     errorCount k = 0 \<and> isActive k \<and> lastUsed k = None \<and> lastError k = None"
  by (auto simp: newKeyInfo_def enumerate_eq_zip comp_def intro: nth_equalityI)

lemma count_nonEmpty_trimmed:
  "length (filter (\<lambda>t. t \<noteq> []) (map trim segs))
     = length (filter (\<lambda>s. \<exists>ch\<in>set s. \<not> isWhiteSpace ch) segs)"
  by (induction segs) (auto simp: trim_Nil_iff)

lemma new_ApiKeyManager_empty:
  "raw = [] \<or> (\<forall>ch\<in>set raw. isWhiteSpace ch) \<Longrightarrow>
     new_ApiKeyManager raw c = Inl NoApiKeysProvided"
proof -
  assume "raw = [] \<or> (\<forall>ch\<in>set raw. isWhiteSpace ch)"
  then have "raw = [] \<or> trim raw = []" by (simp add: trim_Nil_iff)
  then show ?thesis by (simp add: new_ApiKeyManager_def parseApiKeys_def)
qed

lemma new_ApiKeyManager_no_valid:
  assumes "\<not> (\<forall>ch\<in>set raw. isWhiteSpace ch)"
    and "filter (\<lambda>t. t \<noteq> []) (map trim (splitOn CHR '';'' raw)) = []"
  shows "new_ApiKeyManager raw c = Inl NoValidApiKeysFound"
proof -
  from assms(1) have "raw \<noteq> []" "trim raw \<noteq> []" by (auto simp: trim_Nil_iff)
  moreover from assms(2) have "splitKeys raw = []" by (simp add: splitKeys_def)
  ultimately show ?thesis by (simp add: new_ApiKeyManager_def parseApiKeys_def)
qed

lemma new_ApiKeyManager_fresh:
  assumes "new_ApiKeyManager raw c = Inr m0"
  shows "0 < length (apiKeys m0)" and "currentIndex m0 = 0" and "config m0 = mergeConfig c"
    and "map index (apiKeys m0) = [0..<length (apiKeys m0)]"
    and "\<forall>k\<in>set (apiKeys m0). isActive k"
    and "\<forall>k\<in>set (apiKeys m0). errorCount k = 0"
proof -
  from assms obtain ks where ks: "parseApiKeys raw = Inr ks"
    and m0: "m0 = \<lparr>apiKeys = ks, currentIndex = 0, config = mergeConfig c\<rparr>"
    by (auto simp: new_ApiKeyManager_def split: sum.splits)
  from ks have ks': "ks = map newKeyInfo (enumerate 0 (splitKeys raw))" "splitKeys raw \<noteq> []"
    by (auto simp: parseApiKeys_def Let_def split: if_splits)
  show "0 < length (apiKeys m0)" using ks' by (simp add: m0)
  show "currentIndex m0 = 0" and "config m0 = mergeConfig c" by (simp_all add: m0)
  show "map index (apiKeys m0) = [0..<length (apiKeys m0)]"
    using parseApiKeys_fields(2) [of "splitKeys raw"] by (simp add: m0 ks')
  show "\<forall>k\<in>set (apiKeys m0). isActive k" and "\<forall>k\<in>set (apiKeys m0). errorCount k = 0"
    using parseApiKeys_fields(3) [of _ "splitKeys raw"] by (simp_all add: m0 ks')
qed

lemma new_exampleManager: "new_ApiKeyManager ''k1;k2;k3'' c = Inr (exampleManager c)"
  by (simp add: new_ApiKeyManager_def parseApiKeys_def splitKeys_def trim_def isWhiteSpace_def
      exampleManager_def exampleKeys_def enumerate_eq_zip upt_rec numeral_2_eq_2)

lemmas example_defs =
  exampleManager_def exampleKeys_def newKeyInfo_def mergeConfig_def emptyConfig_def
  defaultConfig_def

text \<open>The validator counts the keys the constructor creates, and rejects the inputs the
  constructor rejects.\<close>

lemma parseAndValidateApiKeys_constructor:
  "(error (parseAndValidateApiKeys raw) = Some NoKeysProvided)
     = (new_ApiKeyManager raw c = Inl NoApiKeysProvided)"
  "(error (parseAndValidateApiKeys raw) = Some NoValidKeysFound)
     = (new_ApiKeyManager raw c = Inl NoValidApiKeysFound)"
  "keyCount (parseAndValidateApiKeys raw)
     = (case new_ApiKeyManager raw c of Inl e \<Rightarrow> 0 | Inr m \<Rightarrow> getTotalKeyCount m)"
  by (auto simp: parseAndValidateApiKeys_def new_ApiKeyManager_def parseApiKeys_def Let_def
      getTotalKeyCount_def)

lemma parseAndValidateApiKeys_valid:
  assumes "isValid (parseAndValidateApiKeys raw)"
  shows "\<exists>m. new_ApiKeyManager raw c = Inr m
           \<and> length (apiKeys m) = keyCount (parseAndValidateApiKeys raw)
           \<and> (\<forall>k\<in>set (apiKeys m). 8 \<le> length (key k))"
proof -
  from assms have ne: "raw \<noteq> []" "trim raw \<noteq> []" "splitKeys raw \<noteq> []"
    and long: "filter (\<lambda>k. length k < 8) (splitKeys raw) = []"
    by (auto simp: parseAndValidateApiKeys_def Let_def split: if_splits)
  let ?m = "\<lparr>apiKeys = map newKeyInfo (enumerate 0 (splitKeys raw)), currentIndex = 0,
            config = mergeConfig c\<rparr>"
  have new: "new_ApiKeyManager raw c = Inr ?m"
    using ne by (simp add: new_ApiKeyManager_def parseApiKeys_def)
  have "set (map key (apiKeys ?m)) = set (splitKeys raw)"
    using parseApiKeys_fields(1) [of "splitKeys raw"] by simp
  moreover have "\<forall>k\<in>set (splitKeys raw). 8 \<le> length k"
    using long by (auto simp: filter_empty_conv not_less)
  ultimately have "\<forall>k\<in>set (apiKeys ?m). 8 \<le> length (key k)"
    by (metis image_eqI list.set_map)
  moreover have "length (apiKeys ?m) = keyCount (parseAndValidateApiKeys raw)"
    using ne long by (simp add: parseAndValidateApiKeys_def Let_def)
  ultimately show ?thesis using new by blast
qed

text \<open>
  C4: construction fails with \<open>'No API keys provided'\<close> (EmptyInput) when the raw string is
  empty or all whitespace; otherwise it fails with \<open>'No valid API keys found after parsing'\<close>
  (NoValidCredentials) when splitting on \<open>;\<close>, trimming and dropping the empty pieces
  leaves nothing; otherwise it succeeds with one credential per non-empty trimmed segment,
  in order, each with \<open>errorCount = 0\<close> and \<open>isActive = True\<close>, and with
  \<open>currentIndex = 0\<close>. A failure is a value \<open>Inl e\<close>, which carries no manager.
\<close>

theorem construction_outcomes:
  "((raw = [] \<or> (\<forall>ch\<in>set raw. isWhiteSpace ch))
      \<longrightarrow> new_ApiKeyManager raw c = Inl NoApiKeysProvided)
   \<and> (\<not> (\<forall>ch\<in>set raw. isWhiteSpace ch)
        \<and> filter (\<lambda>t. t \<noteq> []) (map trim (splitOn CHR '';'' raw)) = []
      \<longrightarrow> new_ApiKeyManager raw c = Inl NoValidApiKeysFound)
   \<and> (\<not> (\<forall>ch\<in>set raw. isWhiteSpace ch)
        \<and> filter (\<lambda>t. t \<noteq> []) (map trim (splitOn CHR '';'' raw)) \<noteq> []
      \<longrightarrow> (\<exists>m. new_ApiKeyManager raw c = Inr m
             \<and> map key (apiKeys m) = filter (\<lambda>t. t \<noteq> []) (map trim (splitOn CHR '';'' raw))
             \<and> length (apiKeys m)
                 = length (filter (\<lambda>s. \<exists>ch\<in>set s. \<not> isWhiteSpace ch) (splitOn CHR '';'' raw))
             \<and> map index (apiKeys m) = [0..<length (apiKeys m)]
             \<and> (\<forall>k\<in>set (apiKeys m). errorCount k = 0 \<and> isActive k
                    \<and> lastUsed k = None \<and> lastError k = None)
             \<and> currentIndex m = 0
             \<and> config m = mergeConfig c))"
proof (intro conjI impI)
  assume "raw = [] \<or> (\<forall>ch\<in>set raw. isWhiteSpace ch)"
  then have "raw = [] \<or> trim raw = []" by (simp add: trim_Nil_iff)
  then show "new_ApiKeyManager raw c = Inl NoApiKeysProvided"
    by (simp add: new_ApiKeyManager_def parseApiKeys_def)
next
  assume a: "\<not> (\<forall>ch\<in>set raw. isWhiteSpace ch)
        \<and> filter (\<lambda>t. t \<noteq> []) (map trim (splitOn CHR '';'' raw)) = []"
  then have "raw \<noteq> []" "trim raw \<noteq> []" by (auto simp: trim_Nil_iff)
  moreover from a have "splitKeys raw = []" by (simp add: splitKeys_def)
  ultimately show "new_ApiKeyManager raw c = Inl NoValidApiKeysFound"
    by (simp add: new_ApiKeyManager_def parseApiKeys_def)
next
  let ?keys = "filter (\<lambda>t. t \<noteq> []) (map trim (splitOn CHR '';'' raw))"
  let ?m = "\<lparr>apiKeys = map newKeyInfo (enumerate 0 ?keys), currentIndex = 0,
            config = mergeConfig c\<rparr>"
  assume a: "\<not> (\<forall>ch\<in>set raw. isWhiteSpace ch) \<and> ?keys \<noteq> []"
  then have "raw \<noteq> []" "trim raw \<noteq> []" by (auto simp: trim_Nil_iff)
  moreover have sk: "splitKeys raw = ?keys" by (simp add: splitKeys_def)
  ultimately have new: "new_ApiKeyManager raw c = Inr ?m"
    using a by (simp add: new_ApiKeyManager_def parseApiKeys_def)
  have len: "length (apiKeys ?m)
      = length (filter (\<lambda>s. \<exists>ch\<in>set s. \<not> isWhiteSpace ch) (splitOn CHR '';'' raw))"
    using count_nonEmpty_trimmed [of "splitOn CHR '';'' raw"] by simp
  have keys: "map key (apiKeys ?m) = ?keys"
    using parseApiKeys_fields(1) [of ?keys] by simp
  have idx: "map index (apiKeys ?m) = [0..<length (apiKeys ?m)]"
    using parseApiKeys_fields(2) [of ?keys] by simp
  have fresh: "\<forall>k\<in>set (apiKeys ?m). errorCount k = 0 \<and> isActive k
                    \<and> lastUsed k = None \<and> lastError k = None"
    using parseApiKeys_fields(3) [of _ ?keys] by simp
  show "\<exists>m. new_ApiKeyManager raw c = Inr m
             \<and> map key (apiKeys m) = ?keys
             \<and> length (apiKeys m)
                 = length (filter (\<lambda>s. \<exists>ch\<in>set s. \<not> isWhiteSpace ch) (splitOn CHR '';'' raw))
             \<and> map index (apiKeys m) = [0..<length (apiKeys m)]
             \<and> (\<forall>k\<in>set (apiKeys m). errorCount k = 0 \<and> isActive k
                    \<and> lastUsed k = None \<and> lastError k = None)
             \<and> currentIndex m = 0
             \<and> config m = mergeConfig c"
    using new len keys idx fresh by (intro exI [of _ ?m]) simp
qed

theorem construction_outcomes_witness:
  "new_ApiKeyManager '''' emptyConfig = Inl NoApiKeysProvided
   \<and> new_ApiKeyManager ''   '' emptyConfig = Inl NoApiKeysProvided
   \<and> new_ApiKeyManager '';;'' emptyConfig = Inl NoValidApiKeysFound
   \<and> (\<exists>m. new_ApiKeyManager '' a ;b;; c d;'' emptyConfig = Inr m
          \<and> map key (apiKeys m) = [''a'', ''b'', ''c d'']
          \<and> length (apiKeys m) = 3
          \<and> map index (apiKeys m) = [0..<3]
          \<and> (\<forall>k\<in>set (apiKeys m). errorCount k = 0 \<and> isActive k)
          \<and> currentIndex m = 0)"
  using construction_outcomes [of "''''" emptyConfig]
    construction_outcomes [of "''   ''" emptyConfig]
    construction_outcomes [of "'';;''" emptyConfig]
    construction_outcomes [of "'' a ;b;; c d;''" emptyConfig]
  by (auto simp: isWhiteSpace_def trim_def numeral_3_eq_3)

section \<open>Masking\<close>

lemma replicate_stars:
  "replicate 7 CHR ''*'' = ''*******''" "replicate 8 CHR ''*'' = ''********''"
  by (simp_all add: numeral_eq_Suc)

text \<open>
  C3, as the code has it: \<open>maskApiKey\<close> applied to \<open>AIzaSyTest123456789\<close>, a string of 19
  characters, returns its first 8 characters, then 7 asterisks, then its last 4
  characters: \<open>AIzaSyTe*******6789\<close>.
\<close>

theorem maskApiKey_AIzaSyTest:
  "length ''AIzaSyTest123456789'' = 19
   \<and> maskApiKey ''AIzaSyTest123456789'' = ''AIzaSyTe'' @ replicate 7 CHR ''*'' @ ''6789''
   \<and> maskApiKey ''AIzaSyTest123456789'' = ''AIzaSyTe*******6789''"
  by (simp add: maskApiKey_def replicate_stars)

text \<open>
  C3, as stated (8 asterisks, the result \<open>AIzaSyTe********6789\<close>), does not hold: the
  input has 19 characters, not 20, and the mask keeps the length.
\<close>

theorem maskApiKey_AIzaSyTest_not_eight_stars:
  "maskApiKey ''AIzaSyTest123456789'' \<noteq> ''AIzaSyTe'' @ replicate 8 CHR ''*'' @ ''6789''
   \<and> maskApiKey ''AIzaSyTest123456789'' \<noteq> ''AIzaSyTe********6789''"
  by (simp add: maskApiKey_def replicate_stars)

text \<open>
  C6: for every string \<open>v\<close>, \<open>maskApiKey v\<close> is \<open>*\<close> repeated \<open>length v\<close> times when
  \<open>length v \<le> 12\<close>; otherwise it is the first 8 characters of \<open>v\<close>, then \<open>*\<close> repeated
  \<open>length v - 12\<close> times, then the last 4 characters of \<open>v\<close>. The result has the length
  of \<open>v\<close>.
\<close>

theorem maskApiKey_spec:
  "(length v \<le> 12 \<longrightarrow> maskApiKey v = replicate (length v) CHR ''*'')
   \<and> (12 < length v \<longrightarrow>
        maskApiKey v = take 8 v @ replicate (length v - 12) CHR ''*'' @ rev (take 4 (rev v)))
   \<and> length (maskApiKey v) = length v"
  by (simp add: maskApiKey_def take_rev)

theorem maskApiKey_spec_witness:
  "length ''short'' \<le> 12 \<and> maskApiKey ''short'' = ''*****''
   \<and> 12 < length ''0123456789abcdef''
   \<and> maskApiKey ''0123456789abcdef'' = ''01234567****cdef''
   \<and> length (maskApiKey ''0123456789abcdef'') = 16"
  using maskApiKey_spec [of "''short''"] maskApiKey_spec [of "''0123456789abcdef''"]
  by simp

section \<open>The current credential\<close>

lemma set_getActiveKeys:
  "set (getActiveKeys m) = {p. p < length (apiKeys m) \<and> isActive (apiKeys m ! p)}"
  by (auto simp: getActiveKeys_def)

lemma getActiveKeys_Nil_iff:
  "getActiveKeys m = [] \<longleftrightarrow> (\<forall>k\<in>set (apiKeys m). \<not> isActive k)"
proof -
  have "getActiveKeys m = [] \<longleftrightarrow> set (getActiveKeys m) = {}" by simp
  also have "\<dots> \<longleftrightarrow> (\<forall>p<length (apiKeys m). \<not> isActive (apiKeys m ! p))"
    by (auto simp: set_getActiveKeys)
  also have "\<dots> \<longleftrightarrow> (\<forall>k\<in>set (apiKeys m). \<not> isActive k)"
    by (metis in_set_conv_nth)
  finally show ?thesis .
qed

lemma sorted_getActiveKeys: "sorted (getActiveKeys m)" "distinct (getActiveKeys m)"
  by (simp_all add: getActiveKeys_def sorted_wrt_filter)

lemma getActiveKeys_frame [simp]:
  "getActiveKeys (m\<lparr>currentIndex := i\<rparr>) = getActiveKeys m"
  by (simp add: getActiveKeys_def)

lemma getActiveKeys_all_active:
  assumes "\<forall>k\<in>set (apiKeys m). isActive k"
  shows "getActiveKeys m = [0..<length (apiKeys m)]"
  using assms by (simp add: getActiveKeys_def)

lemma currentKeyOf_in_set:
  "activeKeys \<noteq> [] \<Longrightarrow> currentKeyOf m activeKeys \<in> set activeKeys"
  by (cases activeKeys) (auto simp: currentKeyOf_def dest: find_in_set split: option.splits)

lemma currentKeyOf_index:
  "p \<in> set activeKeys \<Longrightarrow> index (apiKeys m ! p) = currentIndex m \<Longrightarrow>
     index (apiKeys m ! currentKeyOf m activeKeys) = currentIndex m"
  by (auto simp: currentKeyOf_def find_None_iff' dest: find_in_set split: option.splits)

lemma getCurrentApiKey_Inl:
  "getActiveKeys m = [] \<Longrightarrow> getCurrentApiKey now m = Inl NoActiveApiKeys"
  by (simp add: getCurrentApiKey_def)

lemma getCurrentApiKey_Inr:
  assumes "getActiveKeys m \<noteq> []"
  defines "q \<equiv> currentKeyOf m (getActiveKeys m)"
  shows "getCurrentApiKey now m =
           Inr (key (apiKeys m ! q),
                m\<lparr>apiKeys := (apiKeys m)[q := (apiKeys m ! q)\<lparr>lastUsed := Some now\<rparr>]\<rparr>)"
    and "q < length (apiKeys m)" and "isActive (apiKeys m ! q)"
proof -
  have "q \<in> set (getActiveKeys m)"
    unfolding q_def using assms(1) by (rule currentKeyOf_in_set)
  then show "q < length (apiKeys m)" and "isActive (apiKeys m ! q)"
    by (simp_all add: set_getActiveKeys)
  then show "getCurrentApiKey now m =
           Inr (key (apiKeys m ! q),
                m\<lparr>apiKeys := (apiKeys m)[q := (apiKeys m ! q)\<lparr>lastUsed := Some now\<rparr>]\<rparr>)"
    using assms(1) by (simp add: getCurrentApiKey_def Let_def q_def)
qed

lemma touch_frame:
  fixes ks :: "ApiKeyInfo list" and q now :: nat
  defines "ks' \<equiv> ks[q := (ks ! q)\<lparr>lastUsed := Some now\<rparr>]"
  shows "length ks' = length ks"
    and "map key ks' = map key ks"
    and "map index ks' = map index ks"
    and "map isActive ks' = map isActive ks"
    and "map errorCount ks' = map errorCount ks"
    and "map lastError ks' = map lastError ks"
  by (simp_all add: ks'_def map_update_same)

lemma getCurrentApiKey_frame:
  assumes "getCurrentApiKey now m = Inr (k, m')"
  shows "currentIndex m' = currentIndex m" and "config m' = config m"
    and "length (apiKeys m') = length (apiKeys m)"
    and "map key (apiKeys m') = map key (apiKeys m)"
    and "map index (apiKeys m') = map index (apiKeys m)"
    and "map isActive (apiKeys m') = map isActive (apiKeys m)"
    and "map errorCount (apiKeys m') = map errorCount (apiKeys m)"
    and "map lastError (apiKeys m') = map lastError (apiKeys m)"
  using assms
  by (auto simp: getCurrentApiKey_def Let_def touch_frame split: if_splits)

section \<open>Rotation\<close>

text \<open>What the three strategies have in common: the new \<open>currentIndex\<close> is the index of an
  active credential.\<close>

lemma rotateRoundRobin_picks:
  assumes "activeKeys \<noteq> []"
  shows "\<exists>p\<in>set activeKeys.
           rotateRoundRobin m activeKeys = m\<lparr>currentIndex := index (apiKeys m ! p)\<rparr>"
proof -
  let ?n = "nat ((findIndex (\<lambda>p. index (apiKeys m ! p) = currentIndex m) activeKeys + 1)
                  mod int (length activeKeys))"
  have "0 < int (length activeKeys)" using assms by simp
  then have "?n < length activeKeys"
    by (metis nat_less_iff pos_mod_bound pos_mod_sign)
  then have mem: "activeKeys ! ?n \<in> set activeKeys" by (rule nth_mem)
  show ?thesis
    by (rule bexI [OF _ mem]) (simp add: rotateRoundRobin_def Let_def)
qed

lemma rotateLeastErrors_picks:
  assumes "activeKeys \<noteq> []"
  shows "\<exists>p\<in>set activeKeys.
           rotateLeastErrors m activeKeys = m\<lparr>currentIndex := index (apiKeys m ! p)\<rparr>"
proof -
  let ?s = "sort_key (\<lambda>p. errorCount (apiKeys m ! p)) activeKeys"
  have "?s \<noteq> []" using assms by (metis length_sort list.size(3) length_0_conv)
  then have "?s ! 0 \<in> set ?s" by (metis nth_mem length_greater_0_conv)
  then have mem: "?s ! 0 \<in> set activeKeys" by (metis set_sort)
  show ?thesis
    by (rule bexI [OF _ mem]) (simp add: rotateLeastErrors_def Let_def)
qed

lemma rotateRandom_picks:
  assumes "activeKeys \<noteq> []" and "0 \<le> u" and "u < 1"
  shows "\<exists>p\<in>set activeKeys.
           rotateRandom u m activeKeys = Inr (m\<lparr>currentIndex := index (apiKeys m ! p)\<rparr>)"
proof -
  let ?r = "\<lfloor>u * real (length activeKeys)\<rfloor>"
  have pos: "0 < real (length activeKeys)" using assms(1) by simp
  have "0 \<le> u * real (length activeKeys)" using assms(2) by simp
  then have lo: "0 \<le> ?r" by simp
  have "u * real (length activeKeys) < real (length activeKeys)"
    using assms(3) pos by simp
  then have hi: "?r < int (length activeKeys)"
    by (simp add: floor_less_iff)
  then have "nat ?r < length activeKeys" using lo by (metis nat_less_iff)
  then have mem: "activeKeys ! nat ?r \<in> set activeKeys" by (rule nth_mem)
  show ?thesis
    using lo hi by (intro bexI [OF _ mem]) (simp add: rotateRandom_def Let_def)
qed

lemma rotateRandom_cases:
  "rotateRandom u m activeKeys = Inl TypeError
   \<or> (\<exists>p\<in>set activeKeys.
        rotateRandom u m activeKeys = Inr (m\<lparr>currentIndex := index (apiKeys m ! p)\<rparr>))"
proof (cases "0 \<le> \<lfloor>u * real (length activeKeys)\<rfloor>
               \<and> \<lfloor>u * real (length activeKeys)\<rfloor> < int (length activeKeys)")
  case True
  then have "nat \<lfloor>u * real (length activeKeys)\<rfloor> < length activeKeys"
    by (metis nat_less_iff)
  then have mem: "activeKeys ! nat \<lfloor>u * real (length activeKeys)\<rfloor> \<in> set activeKeys"
    by (rule nth_mem)
  show ?thesis
    using True by (intro disjI2 bexI [OF _ mem]) (simp add: rotateRandom_def Let_def)
next
  case False
  then have "rotateRandom u m activeKeys = Inl TypeError"
    by (simp add: rotateRandom_def Let_def)
  then show ?thesis ..
qed

lemma rotateApiKey_Inl:
  "getActiveKeys m = [] \<Longrightarrow> rotateApiKey now u m = Inl NoActiveApiKeysForRotation"
  by (simp add: rotateApiKey_def)

lemma rotate_then_current:
  assumes p: "p \<in> set (getActiveKeys m)"
  defines "m1 \<equiv> m\<lparr>currentIndex := index (apiKeys m ! p)\<rparr>"
  defines "q \<equiv> currentKeyOf m1 (getActiveKeys m)"
  shows "getCurrentApiKey now m1 =
           Inr (key (apiKeys m ! q),
                m1\<lparr>apiKeys := (apiKeys m)[q := (apiKeys m ! q)\<lparr>lastUsed := Some now\<rparr>]\<rparr>)"
    and "q < length (apiKeys m)" and "isActive (apiKeys m ! q)"
    and "index (apiKeys m ! q) = index (apiKeys m ! p)"
proof -
  have ne: "getActiveKeys m1 \<noteq> []" using p by (auto simp: m1_def)
  have q: "q = currentKeyOf m1 (getActiveKeys m1)" by (simp add: q_def m1_def)
  from getCurrentApiKey_Inr(1) [OF ne, of now] getCurrentApiKey_Inr(2,3) [OF ne]
  show "getCurrentApiKey now m1 =
           Inr (key (apiKeys m ! q),
                m1\<lparr>apiKeys := (apiKeys m)[q := (apiKeys m ! q)\<lparr>lastUsed := Some now\<rparr>]\<rparr>)"
    and "q < length (apiKeys m)" and "isActive (apiKeys m ! q)"
    by (simp_all add: q m1_def)
  have "index (apiKeys m1 ! currentKeyOf m1 (getActiveKeys m)) = currentIndex m1"
    by (rule currentKeyOf_index [OF p]) (simp add: m1_def)
  then show "index (apiKeys m ! q) = index (apiKeys m ! p)"
    by (simp add: q_def m1_def)
qed

lemma rotateApiKey_cases:
  assumes ne: "getActiveKeys m \<noteq> []"
  shows "(rotationStrategy (config m) = Random \<and> rotateApiKey now u m = Inl TypeError)
         \<or> (\<exists>q. q < length (apiKeys m) \<and> isActive (apiKeys m ! q)
               \<and> rotateApiKey now u m =
                   Inr (key (apiKeys m ! q),
                        m\<lparr>currentIndex := index (apiKeys m ! q),
                          apiKeys := (apiKeys m)[q := (apiKeys m ! q)\<lparr>lastUsed := Some now\<rparr>]\<rparr>))"
proof -
  let ?strategy = "case rotationStrategy (config m) of
                     RoundRobin \<Rightarrow> Inr (rotateRoundRobin m (getActiveKeys m))
                   | LeastErrors \<Rightarrow> Inr (rotateLeastErrors m (getActiveKeys m))
                   | Random \<Rightarrow> rotateRandom u m (getActiveKeys m)"
  have rot: "rotateApiKey now u m =
               (case ?strategy of Inl e \<Rightarrow> Inl e | Inr m' \<Rightarrow> getCurrentApiKey now m')"
    using ne by (simp add: rotateApiKey_def Let_def)
  have "(rotationStrategy (config m) = Random \<and> ?strategy = Inl TypeError)
        \<or> (\<exists>p\<in>set (getActiveKeys m).
              ?strategy = Inr (m\<lparr>currentIndex := index (apiKeys m ! p)\<rparr>))"
  proof (cases "rotationStrategy (config m)")
    case RoundRobin
    then show ?thesis using rotateRoundRobin_picks [OF ne, of m] by simp
  next
    case LeastErrors
    then show ?thesis using rotateLeastErrors_picks [OF ne, of m] by simp
  next
    case Random
    then show ?thesis using rotateRandom_cases [of u m "getActiveKeys m"] by simp
  qed
  then show ?thesis
  proof
    assume a: "rotationStrategy (config m) = Random \<and> ?strategy = Inl TypeError"
    then have s: "?strategy = Inl TypeError" ..
    have "rotateApiKey now u m = Inl TypeError" unfolding rot s by simp
    with a show ?thesis by blast
  next
    assume "\<exists>p\<in>set (getActiveKeys m).
              ?strategy = Inr (m\<lparr>currentIndex := index (apiKeys m ! p)\<rparr>)"
    then obtain p where p: "p \<in> set (getActiveKeys m)"
      and s: "?strategy = Inr (m\<lparr>currentIndex := index (apiKeys m ! p)\<rparr>)" by blast
    let ?m1 = "m\<lparr>currentIndex := index (apiKeys m ! p)\<rparr>"
    let ?q = "currentKeyOf ?m1 (getActiveKeys m)"
    have "rotateApiKey now u m = getCurrentApiKey now ?m1"
      using rot s by simp
    with rotate_then_current(1) [OF p, of now] rotate_then_current(2,3,4) [OF p]
    have "?q < length (apiKeys m) \<and> isActive (apiKeys m ! ?q)
               \<and> rotateApiKey now u m =
                   Inr (key (apiKeys m ! ?q),
                        m\<lparr>currentIndex := index (apiKeys m ! ?q),
                          apiKeys := (apiKeys m)[?q := (apiKeys m ! ?q)\<lparr>lastUsed := Some now\<rparr>]\<rparr>)"
      by simp
    then show ?thesis by blast
  qed
qed

lemma rotateApiKey_Inr:
  assumes ne: "getActiveKeys m \<noteq> []"
    and u: "rotationStrategy (config m) = Random \<longrightarrow> 0 \<le> u \<and> u < 1"
  shows "\<exists>q. q < length (apiKeys m) \<and> isActive (apiKeys m ! q)
               \<and> rotateApiKey now u m =
                   Inr (key (apiKeys m ! q),
                        m\<lparr>currentIndex := index (apiKeys m ! q),
                          apiKeys := (apiKeys m)[q := (apiKeys m ! q)\<lparr>lastUsed := Some now\<rparr>]\<rparr>)"
proof (cases "rotationStrategy (config m) = Random")
  case True
  with u have "0 \<le> u" "u < 1" by simp_all
  from rotateRandom_picks [OF ne this, of m]
  have "rotateApiKey now u m \<noteq> Inl TypeError"
    using ne True by (auto simp: rotateApiKey_def Let_def getCurrentApiKey_def)
  with rotateApiKey_cases [OF ne, of now u] show ?thesis by blast
next
  case False
  with rotateApiKey_cases [OF ne, of now u] show ?thesis by blast
qed

lemma rotateApiKey_frame:
  assumes "rotateApiKey now u m = Inr (k, m')"
  shows "config m' = config m"
    and "length (apiKeys m') = length (apiKeys m)"
    and "map key (apiKeys m') = map key (apiKeys m)"
    and "map index (apiKeys m') = map index (apiKeys m)"
    and "map isActive (apiKeys m') = map isActive (apiKeys m)"
    and "map errorCount (apiKeys m') = map errorCount (apiKeys m)"
    and "map lastError (apiKeys m') = map lastError (apiKeys m)"
    and "\<exists>q<length (apiKeys m). isActive (apiKeys m ! q) \<and> currentIndex m' = index (apiKeys m ! q)"
proof -
  have ne: "getActiveKeys m \<noteq> []"
    using assms by (auto simp: rotateApiKey_def)
  from rotateApiKey_cases [OF ne, of now u] assms
  obtain q where q: "q < length (apiKeys m)" "isActive (apiKeys m ! q)"
    and m': "m' = m\<lparr>currentIndex := index (apiKeys m ! q),
                    apiKeys := (apiKeys m)[q := (apiKeys m ! q)\<lparr>lastUsed := Some now\<rparr>]\<rparr>"
    by auto
  show "config m' = config m" and "length (apiKeys m') = length (apiKeys m)"
    and "map key (apiKeys m') = map key (apiKeys m)"
    and "map index (apiKeys m') = map index (apiKeys m)"
    and "map isActive (apiKeys m') = map isActive (apiKeys m)"
    and "map errorCount (apiKeys m') = map errorCount (apiKeys m)"
    and "map lastError (apiKeys m') = map lastError (apiKeys m)"
    by (simp_all add: m' touch_frame)
  show "\<exists>q<length (apiKeys m). isActive (apiKeys m ! q) \<and> currentIndex m' = index (apiKeys m ! q)"
    using q by (auto simp: m')
qed

section \<open>Exhaustion\<close>

lemma exhausted_inactive: "map isActive (apiKeys exhausted) = [False, False, False]"
  by code_simp

lemma exhausted_no_active: "\<forall>k\<in>set (apiKeys exhausted). \<not> isActive k"
proof -
  have "\<forall>b\<in>set (map isActive (apiKeys exhausted)). \<not> b"
    by (simp add: exhausted_inactive)
  then show ?thesis by simp
qed

text \<open>
  C7: \<open>getCurrentApiKey\<close> and \<open>rotateApiKey\<close> throw their "No active API keys" error when
  every credential has \<open>isActive = False\<close>; when some credential is active both succeed
  and return the key of an active credential (and \<open>rotateApiKey\<close> leaves \<open>currentIndex\<close>
  at that credential's index), so they fail exactly when the active subset is empty.
  Under the random strategy \<open>u\<close> is a value of \<open>Math.random()\<close>, which lies in \<open>[0, 1)\<close>.
\<close>

theorem exhaustion:
  "((\<forall>k\<in>set (apiKeys m). \<not> isActive k)
      \<longrightarrow> getCurrentApiKey now m = Inl NoActiveApiKeys
          \<and> rotateApiKey now u m = Inl NoActiveApiKeysForRotation)
   \<and> ((\<exists>k\<in>set (apiKeys m). isActive k)
        \<and> (rotationStrategy (config m) = Random \<longrightarrow> 0 \<le> u \<and> u < 1)
      \<longrightarrow> (\<exists>q m'. q < length (apiKeys m) \<and> isActive (apiKeys m ! q)
             \<and> getCurrentApiKey now m = Inr (key (apiKeys m ! q), m'))
          \<and> (\<exists>q m'. q < length (apiKeys m) \<and> isActive (apiKeys m ! q)
             \<and> rotateApiKey now u m = Inr (key (apiKeys m ! q), m')
             \<and> currentIndex m' = index (apiKeys m ! q)))"
proof (intro conjI impI)
  assume "\<forall>k\<in>set (apiKeys m). \<not> isActive k"
  then have e: "getActiveKeys m = []" by (simp add: getActiveKeys_Nil_iff)
  show "getCurrentApiKey now m = Inl NoActiveApiKeys"
    using e by (rule getCurrentApiKey_Inl)
  show "rotateApiKey now u m = Inl NoActiveApiKeysForRotation"
    using e by (rule rotateApiKey_Inl)
next
  assume a: "(\<exists>k\<in>set (apiKeys m). isActive k)
        \<and> (rotationStrategy (config m) = Random \<longrightarrow> 0 \<le> u \<and> u < 1)"
  then have ne: "getActiveKeys m \<noteq> []" by (simp add: getActiveKeys_Nil_iff)
  from getCurrentApiKey_Inr(1) [OF ne, of now] getCurrentApiKey_Inr(2,3) [OF ne]
  show "\<exists>q m'. q < length (apiKeys m) \<and> isActive (apiKeys m ! q)
             \<and> getCurrentApiKey now m = Inr (key (apiKeys m ! q), m')"
    by blast
  from a have u: "rotationStrategy (config m) = Random \<longrightarrow> 0 \<le> u \<and> u < 1" by simp
  from rotateApiKey_Inr [OF ne u, of now]
  obtain q where "q < length (apiKeys m)" "isActive (apiKeys m ! q)"
    "rotateApiKey now u m =
       Inr (key (apiKeys m ! q),
            m\<lparr>currentIndex := index (apiKeys m ! q),
              apiKeys := (apiKeys m)[q := (apiKeys m ! q)\<lparr>lastUsed := Some now\<rparr>]\<rparr>)"
    by blast
  then show "\<exists>q m'. q < length (apiKeys m) \<and> isActive (apiKeys m ! q)
             \<and> rotateApiKey now u m = Inr (key (apiKeys m ! q), m')
             \<and> currentIndex m' = index (apiKeys m ! q)"
    by (intro exI [of _ q]) simp
qed

theorem exhaustion_witness:
  "getCurrentApiKey 9 exhausted = Inl NoActiveApiKeys
   \<and> rotateApiKey 9 (1 / 2) exhausted = Inl NoActiveApiKeysForRotation
   \<and> (\<exists>q m'. q < length (apiKeys (exampleManager randomly))
          \<and> isActive (apiKeys (exampleManager randomly) ! q)
          \<and> getCurrentApiKey 9 (exampleManager randomly)
              = Inr (key (apiKeys (exampleManager randomly) ! q), m'))
   \<and> (\<exists>q m'. q < length (apiKeys (exampleManager randomly))
          \<and> isActive (apiKeys (exampleManager randomly) ! q)
          \<and> rotateApiKey 9 (1 / 2) (exampleManager randomly)
              = Inr (key (apiKeys (exampleManager randomly) ! q), m')
          \<and> currentIndex m' = index (apiKeys (exampleManager randomly) ! q))"
proof -
  have h: "(\<exists>k\<in>set (apiKeys (exampleManager randomly)). isActive k)
        \<and> (rotationStrategy (config (exampleManager randomly)) = Random
             \<longrightarrow> 0 \<le> (1 / 2 :: real) \<and> (1 / 2 :: real) < 1)"
    by (simp add: example_defs randomly_def)
  show ?thesis
    using exhaustion [of exhausted 9 "1 / 2"] exhausted_no_active
      exhaustion [of "exampleManager randomly" 9 "1 / 2"] h
    by blast
qed

section \<open>Error reports and reset\<close>

lemma reportError_found:
  assumes "p < length (apiKeys m)" and "index (apiKeys m ! p) = currentIndex m"
    and "\<forall>q<p. index (apiKeys m ! q) \<noteq> currentIndex m"
  shows "reportError err m =
           m\<lparr>apiKeys := (apiKeys m)[p := (apiKeys m ! p)
              \<lparr>errorCount := errorCount (apiKeys m ! p) + 1,
               lastError := Some err,
               isActive := isActive (apiKeys m ! p)
                            \<and> int (errorCount (apiKeys m ! p) + 1) < maxErrorsPerKey (config m)\<rparr>]\<rparr>"
proof -
  have "find (\<lambda>p. index (apiKeys m ! p) = currentIndex m) [0..<length (apiKeys m)] = Some p"
    using assms by (simp add: find_upt_Some)
  then show ?thesis
    by (simp add: reportError_def Let_def not_less)
qed

lemma reportError_not_found:
  assumes "\<forall>q<length (apiKeys m). index (apiKeys m ! q) \<noteq> currentIndex m"
  shows "reportError err m = m"
proof -
  have "find (\<lambda>p. index (apiKeys m ! p) = currentIndex m) [0..<length (apiKeys m)] = None"
    using assms by (simp add: find_upt_None)
  then show ?thesis by (simp add: reportError_def)
qed

lemma reportError_cases:
  obtains (none) "reportError err m = m"
  | (some) p where "p < length (apiKeys m)" "index (apiKeys m ! p) = currentIndex m"
      "\<forall>q<p. index (apiKeys m ! q) \<noteq> currentIndex m"
proof (cases "find (\<lambda>p. index (apiKeys m ! p) = currentIndex m) [0..<length (apiKeys m)]")
  case None
  then have "reportError err m = m" by (simp add: reportError_def)
  then show ?thesis by (rule none)
next
  case (Some p)
  then have "p < length (apiKeys m)" "index (apiKeys m ! p) = currentIndex m"
      "\<forall>q<p. index (apiKeys m ! q) \<noteq> currentIndex m"
    by (simp_all add: find_upt_Some)
  then show ?thesis by (rule some)
qed

lemma reportError_frame:
  "currentIndex (reportError err m) = currentIndex m"
  "config (reportError err m) = config m"
  "length (apiKeys (reportError err m)) = length (apiKeys m)"
  "map key (apiKeys (reportError err m)) = map key (apiKeys m)"
  "map index (apiKeys (reportError err m)) = map index (apiKeys m)"
  "map lastUsed (apiKeys (reportError err m)) = map lastUsed (apiKeys m)"
  by (cases err m rule: reportError_cases; simp add: reportError_found map_update_same)+

lemma resetErrorCounts_frame:
  "currentIndex (resetErrorCounts m) = currentIndex m"
  "config (resetErrorCounts m) = config m"
  "length (apiKeys (resetErrorCounts m)) = length (apiKeys m)"
  "map key (apiKeys (resetErrorCounts m)) = map key (apiKeys m)"
  "map index (apiKeys (resetErrorCounts m)) = map index (apiKeys m)"
  "map lastUsed (apiKeys (resetErrorCounts m)) = map lastUsed (apiKeys m)"
  by (simp_all add: resetErrorCounts_def comp_def)

lemma resetErrorCounts_all:
  "k \<in> set (apiKeys (resetErrorCounts m)) \<Longrightarrow>
     errorCount k = 0 \<and> isActive k \<and> lastError k = None"
  by (auto simp: resetErrorCounts_def)

lemma exec_frame:
  "config (exec c m) = config m"
  "length (apiKeys (exec c m)) = length (apiKeys m)"
  "map key (apiKeys (exec c m)) = map key (apiKeys m)"
  "map index (apiKeys (exec c m)) = map index (apiKeys m)"
  by (cases c;
      auto simp: reportError_frame resetErrorCounts_frame
           dest: getCurrentApiKey_frame rotateApiKey_frame split: sum.splits)+

lemma run_frame:
  "config (run cs m) = config m"
  "length (apiKeys (run cs m)) = length (apiKeys m)"
  "map key (apiKeys (run cs m)) = map key (apiKeys m)"
  "map index (apiKeys (run cs m)) = map index (apiKeys m)"
  by (induction cs arbitrary: m; simp add: exec_frame)+

lemma exec_keeps_active:
  assumes c: "\<forall>e. c \<noteq> ReportError e"
    and q: "q < length (apiKeys m)" and a: "isActive (apiKeys m ! q)"
  shows "isActive (apiKeys (exec c m) ! q)"
proof (cases c)
  case (GetCurrentApiKey now)
  show ?thesis
  proof (cases "getCurrentApiKey now m")
    case (Inl e)
    then show ?thesis using a GetCurrentApiKey by simp
  next
    case (Inr r)
    then have "getCurrentApiKey now m = Inr (fst r, snd r)" by simp
    from nth_of_map_eq [OF getCurrentApiKey_frame(6) [OF this] q]
    show ?thesis using a GetCurrentApiKey Inr by simp
  qed
next
  case (RotateApiKey now u)
  show ?thesis
  proof (cases "rotateApiKey now u m")
    case (Inl e)
    then show ?thesis using a RotateApiKey by simp
  next
    case (Inr r)
    then have "rotateApiKey now u m = Inr (fst r, snd r)" by simp
    from nth_of_map_eq [OF rotateApiKey_frame(5) [OF this] q]
    show ?thesis using a RotateApiKey Inr by simp
  qed
next
  case (ReportError e)
  then show ?thesis using c by simp
next
  case ResetErrorCounts
  then show ?thesis using q by (simp add: resetErrorCounts_def)
qed (use a in simp_all)

lemma overThreshold_same:
  assumes "overThreshold m" and "config m' = config m"
    and "map isActive (apiKeys m') = map isActive (apiKeys m)"
    and "map errorCount (apiKeys m') = map errorCount (apiKeys m)"
  shows "overThreshold m'"
proof -
  have len: "length (apiKeys m') = length (apiKeys m)"
    using assms(3) by (metis length_map)
  show ?thesis
    unfolding overThreshold_def
  proof (intro allI impI)
    fix q
    assume q: "q < length (apiKeys m')" and na: "\<not> isActive (apiKeys m' ! q)"
    from q len have q': "q < length (apiKeys m)" by simp
    have "isActive (apiKeys m' ! q) = isActive (apiKeys m ! q)"
      using assms(3) q' by (rule nth_of_map_eq)
    moreover have "errorCount (apiKeys m' ! q) = errorCount (apiKeys m ! q)"
      using assms(4) q' by (rule nth_of_map_eq)
    ultimately show "maxErrorsPerKey (config m') \<le> int (errorCount (apiKeys m' ! q))"
      using assms(1,2) q' na by (simp add: overThreshold_def)
  qed
qed

lemma overThreshold_reportError:
  assumes "overThreshold m"
  shows "overThreshold (reportError err m)"
proof (cases err m rule: reportError_cases)
  case none
  then show ?thesis using assms by simp
next
  case (some p)
  show ?thesis
    unfolding overThreshold_def reportError_found [OF some]
  proof (intro allI impI)
    fix q
    let ?ks = "(apiKeys m)[p := (apiKeys m ! p)
              \<lparr>errorCount := errorCount (apiKeys m ! p) + 1,
               lastError := Some err,
               isActive := isActive (apiKeys m ! p)
                            \<and> int (errorCount (apiKeys m ! p) + 1) < maxErrorsPerKey (config m)\<rparr>]"
    assume q: "q < length (apiKeys (m\<lparr>apiKeys := ?ks\<rparr>))"
      and na: "\<not> isActive (apiKeys (m\<lparr>apiKeys := ?ks\<rparr>) ! q)"
    show "maxErrorsPerKey (config (m\<lparr>apiKeys := ?ks\<rparr>))
            \<le> int (errorCount (apiKeys (m\<lparr>apiKeys := ?ks\<rparr>) ! q))"
    proof (cases "q = p")
      case True
      have "\<not> isActive (apiKeys m ! p) \<longrightarrow>
              maxErrorsPerKey (config m) \<le> int (errorCount (apiKeys m ! p))"
        using assms some(1) by (simp add: overThreshold_def)
      then show ?thesis using na q True by auto
    next
      case False
      then show ?thesis using assms q na by (simp add: overThreshold_def)
    qed
  qed
qed

lemma overThreshold_exec: "overThreshold m \<Longrightarrow> overThreshold (exec c m)"
proof (cases c)
  case (GetCurrentApiKey now)
  assume o: "overThreshold m"
  show ?thesis
  proof (cases "getCurrentApiKey now m")
    case (Inl e)
    then show ?thesis using o GetCurrentApiKey by simp
  next
    case (Inr r)
    then have g: "getCurrentApiKey now m = Inr (fst r, snd r)" by simp
    note fr = getCurrentApiKey_frame [OF g]
    have "overThreshold (snd r)" using o fr(2,6,7) by (rule overThreshold_same)
    then show ?thesis using GetCurrentApiKey Inr by simp
  qed
next
  case (RotateApiKey now u)
  assume o: "overThreshold m"
  show ?thesis
  proof (cases "rotateApiKey now u m")
    case (Inl e)
    then show ?thesis using o RotateApiKey by simp
  next
    case (Inr r)
    then have g: "rotateApiKey now u m = Inr (fst r, snd r)" by simp
    note fr = rotateApiKey_frame [OF g]
    have "overThreshold (snd r)" using o fr(1,5,6) by (rule overThreshold_same)
    then show ?thesis using RotateApiKey Inr by simp
  qed
next
  case (ReportError err)
  assume "overThreshold m"
  then show ?thesis using ReportError by (simp add: overThreshold_reportError)
next
  case ResetErrorCounts
  show ?thesis using ResetErrorCounts by (simp add: overThreshold_def resetErrorCounts_def)
qed simp_all

lemma overThreshold_run: "overThreshold m \<Longrightarrow> overThreshold (run cs m)"
  by (induction cs arbitrary: m) (simp_all add: overThreshold_exec)

lemma overThreshold_new:
  assumes "new_ApiKeyManager raw c = Inr m0"
  shows "overThreshold (run cs m0)"
proof -
  have "overThreshold m0"
    using new_ApiKeyManager_fresh(5) [OF assms] by (simp add: overThreshold_def)
  then show ?thesis by (rule overThreshold_run)
qed

text \<open>
  C2: in every state in which some credential has the index \<open>currentIndex\<close> (\<open>p\<close> is the
  first such), \<open>reportError msg\<close> increments its \<open>errorCount\<close> by one and overwrites its
  \<open>lastError\<close> with \<open>msg\<close>; it sets \<open>isActive\<close> to false when the new count reaches or
  exceeds \<open>maxErrorsPerKey\<close> and leaves the flag as it was otherwise, so a credential
  that is already inactive gets its count incremented and stays inactive. Nothing else
  changes. In the states reached from a construction (\<open>overThreshold\<close>) the credential
  is inactive afterwards exactly when the new count reaches or exceeds the threshold. No
  other call turns an active credential inactive.
\<close>

theorem reportError_effect:
  "(p < length (apiKeys m) \<and> index (apiKeys m ! p) = currentIndex m
      \<and> (\<forall>q<p. index (apiKeys m ! q) \<noteq> currentIndex m)
    \<longrightarrow> (let m' = reportError msg m; k = apiKeys m ! p; k' = apiKeys m' ! p in
           errorCount k' = errorCount k + 1
         \<and> lastError k' = Some msg
         \<and> (maxErrorsPerKey (config m) \<le> int (errorCount k') \<longrightarrow> \<not> isActive k')
         \<and> (int (errorCount k') < maxErrorsPerKey (config m) \<longrightarrow> isActive k' = isActive k)
         \<and> (\<not> isActive k \<longrightarrow> \<not> isActive k')
         \<and> (overThreshold m \<longrightarrow>
               (\<not> isActive k' \<longleftrightarrow> maxErrorsPerKey (config m) \<le> int (errorCount k')))
         \<and> key k' = key k \<and> index k' = index k \<and> lastUsed k' = lastUsed k
         \<and> length (apiKeys m') = length (apiKeys m)
         \<and> (\<forall>q. q \<noteq> p \<longrightarrow> apiKeys m' ! q = apiKeys m ! q)
         \<and> currentIndex m' = currentIndex m \<and> config m' = config m))
   \<and> ((\<forall>e. c \<noteq> ReportError e)
        \<longrightarrow> (\<forall>q<length (apiKeys m).
               isActive (apiKeys m ! q) \<longrightarrow> isActive (apiKeys (exec c m) ! q)))"
proof (intro conjI impI allI)
  assume "p < length (apiKeys m) \<and> index (apiKeys m ! p) = currentIndex m
      \<and> (\<forall>q<p. index (apiKeys m ! q) \<noteq> currentIndex m)"
  then have p: "p < length (apiKeys m)" and i: "index (apiKeys m ! p) = currentIndex m"
    and f: "\<forall>q<p. index (apiKeys m ! q) \<noteq> currentIndex m" by simp_all
  show "let m' = reportError msg m; k = apiKeys m ! p; k' = apiKeys m' ! p in
           errorCount k' = errorCount k + 1
         \<and> lastError k' = Some msg
         \<and> (maxErrorsPerKey (config m) \<le> int (errorCount k') \<longrightarrow> \<not> isActive k')
         \<and> (int (errorCount k') < maxErrorsPerKey (config m) \<longrightarrow> isActive k' = isActive k)
         \<and> (\<not> isActive k \<longrightarrow> \<not> isActive k')
         \<and> (overThreshold m \<longrightarrow>
               (\<not> isActive k' \<longleftrightarrow> maxErrorsPerKey (config m) \<le> int (errorCount k')))
         \<and> key k' = key k \<and> index k' = index k \<and> lastUsed k' = lastUsed k
         \<and> length (apiKeys m') = length (apiKeys m)
         \<and> (\<forall>q. q \<noteq> p \<longrightarrow> apiKeys m' ! q = apiKeys m ! q)
         \<and> currentIndex m' = currentIndex m \<and> config m' = config m"
  proof -
    have "overThreshold m \<Longrightarrow> \<not> isActive (apiKeys m ! p) \<Longrightarrow>
            maxErrorsPerKey (config m) \<le> int (errorCount (apiKeys m ! p)) + 1"
      using p by (fastforce simp: overThreshold_def)
    then show ?thesis
      using p by (auto simp: reportError_found [OF p i f] Let_def)
  qed
next
  fix q
  assume "\<forall>e. c \<noteq> ReportError e" "q < length (apiKeys m)" "isActive (apiKeys m ! q)"
  then show "isActive (apiKeys (exec c m) ! q)" by (rule exec_keeps_active)
qed

theorem reportError_effect_witness:
  "(let m2 = reportError ''e2'' (reportError ''e1'' (exampleManager emptyConfig));
        m3 = reportError ''e3'' m2;
        m4 = reportError ''e4'' m3
    in isActive (apiKeys m2 ! 0) \<and> errorCount (apiKeys m2 ! 0) = 2
       \<and> \<not> isActive (apiKeys m3 ! 0) \<and> errorCount (apiKeys m3 ! 0) = 3
       \<and> lastError (apiKeys m3 ! 0) = Some ''e3''
       \<and> \<not> isActive (apiKeys m4 ! 0) \<and> errorCount (apiKeys m4 ! 0) = 4
       \<and> isActive (apiKeys (exec (GetCurrentApiKey 7) m2) ! 0)
       \<and> overThreshold m2
       \<and> (\<not> isActive (apiKeys m3 ! 0)
            \<longleftrightarrow> maxErrorsPerKey (config m2) \<le> int (errorCount (apiKeys m3 ! 0))))"
proof -
  let ?m2 = "reportError ''e2'' (reportError ''e1'' (exampleManager emptyConfig))"
  let ?m3 = "reportError ''e3'' ?m2"
  have m2: "apiKeys ?m2 ! 0 =
      \<lparr>key = ''k1'', index = 0, isActive = True, errorCount = 2, lastUsed = None,
       lastError = Some ''e2''\<rparr>"
    "length (apiKeys ?m2) = 3" "currentIndex ?m2 = 0" "maxErrorsPerKey (config ?m2) = 3"
    by (simp_all add: example_defs reportError_def)
  have h2: "0 < length (apiKeys ?m2) \<and> index (apiKeys ?m2 ! 0) = currentIndex ?m2
      \<and> (\<forall>q<0. index (apiKeys ?m2 ! q) \<noteq> currentIndex ?m2)"
    by (simp add: m2)
  have c: "\<forall>e. GetCurrentApiKey 7 \<noteq> ReportError e" by simp
  have "overThreshold (run [ReportError ''e1'', ReportError ''e2''] (exampleManager emptyConfig))"
    by (rule overThreshold_new [OF new_exampleManager])
  then have o2: "overThreshold ?m2" by simp
  from reportError_effect [of 0 ?m2 "''e3''" "GetCurrentApiKey 7"] h2 c o2
  have m3: "\<not> isActive (apiKeys ?m3 ! 0)" "errorCount (apiKeys ?m3 ! 0) = 3"
    "lastError (apiKeys ?m3 ! 0) = Some ''e3''" "index (apiKeys ?m3 ! 0) = 0"
    "length (apiKeys ?m3) = 3" "currentIndex ?m3 = 0" "maxErrorsPerKey (config ?m3) = 3"
    "isActive (apiKeys (exec (GetCurrentApiKey 7) ?m2) ! 0)"
    "\<not> isActive (apiKeys ?m3 ! 0)
       \<longleftrightarrow> maxErrorsPerKey (config ?m2) \<le> int (errorCount (apiKeys ?m3 ! 0))"
    by (simp_all add: Let_def m2)
  have h3: "0 < length (apiKeys ?m3) \<and> index (apiKeys ?m3 ! 0) = currentIndex ?m3
      \<and> (\<forall>q<0. index (apiKeys ?m3 ! q) \<noteq> currentIndex ?m3)"
    by (simp add: m3)
  from reportError_effect [of 0 ?m3 "''e4''" ResetErrorCounts] h3
  have m4: "\<not> isActive (apiKeys (reportError ''e4'' ?m3) ! 0)"
    "errorCount (apiKeys (reportError ''e4'' ?m3) ! 0) = 4"
    by (simp_all add: Let_def m3)
  show ?thesis
    unfolding Let_def using m2 m3 m4 o2 by simp
qed

section \<open>Indices\<close>

lemma exec_currentIndex_unchanged:
  "(\<And>now u. c \<noteq> RotateApiKey now u) \<Longrightarrow> currentIndex (exec c m) = currentIndex m"
  by (cases c)
     (auto simp: reportError_frame resetErrorCounts_frame
           dest: getCurrentApiKey_frame split: sum.splits)

lemma exec_currentIndex_bound:
  assumes idx: "map index (apiKeys m) = [0..<length (apiKeys m)]"
    and cur: "currentIndex m < length (apiKeys m)"
  shows "currentIndex (exec c m) < length (apiKeys m)"
proof (cases "\<exists>now u. c = RotateApiKey now u")
  case False
  then show ?thesis using cur by (simp add: exec_currentIndex_unchanged)
next
  case True
  then obtain now u where c: "c = RotateApiKey now u" by blast
  show ?thesis
  proof (cases "rotateApiKey now u m")
    case (Inl e)
    then show ?thesis using cur c by simp
  next
    case (Inr r)
    then have "rotateApiKey now u m = Inr (fst r, snd r)" by simp
    from rotateApiKey_frame(8) [OF this]
    obtain q where q: "q < length (apiKeys m)" "currentIndex (snd r) = index (apiKeys m ! q)"
      by blast
    have "index (apiKeys m ! q) = map index (apiKeys m) ! q" using q(1) by simp
    also have "\<dots> = q" using q(1) by (simp add: idx)
    finally show ?thesis using q c Inr by simp
  qed
qed

lemma run_invariant:
  assumes "map index (apiKeys m) = [0..<length (apiKeys m)]"
    and "currentIndex m < length (apiKeys m)"
  shows "map index (apiKeys (run cs m)) = [0..<length (apiKeys m)]
         \<and> length (apiKeys (run cs m)) = length (apiKeys m)
         \<and> currentIndex (run cs m) < length (apiKeys m)"
  using assms
proof (induction cs arbitrary: m)
  case Nil
  then show ?case by simp
next
  case (Cons c cs)
  have "map index (apiKeys (exec c m)) = [0..<length (apiKeys (exec c m))]"
    using Cons.prems(1) by (simp add: exec_frame)
  moreover have "currentIndex (exec c m) < length (apiKeys (exec c m))"
    using exec_currentIndex_bound [OF Cons.prems] by (simp add: exec_frame)
  ultimately show ?case
    using Cons.IH [of "exec c m"] by (simp add: exec_frame)
qed

text \<open>
  C8: in every state reached from a successful construction with \<open>N\<close> credentials by any
  sequence of calls, the index values of the table are \<open>0, \<dots>, N - 1\<close>, in this order
  and each once (so their multiset is \<open>{0, \<dots>, N - 1}\<close>), and \<open>currentIndex\<close> is one of
  them.
\<close>

theorem index_invariant:
  "new_ApiKeyManager raw c = Inr m0 \<Longrightarrow>
     0 < length (apiKeys m0)
     \<and> length (apiKeys (run cs m0)) = length (apiKeys m0)
     \<and> map index (apiKeys (run cs m0)) = [0..<length (apiKeys m0)]
     \<and> mset (map index (apiKeys (run cs m0))) = mset [0..<length (apiKeys m0)]
     \<and> currentIndex (run cs m0) < length (apiKeys m0)"
proof -
  assume new: "new_ApiKeyManager raw c = Inr m0"
  then obtain ks where ks: "parseApiKeys raw = Inr ks"
    and m0: "m0 = \<lparr>apiKeys = ks, currentIndex = 0, config = mergeConfig c\<rparr>"
    by (auto simp: new_ApiKeyManager_def split: sum.splits)
  from ks have ks': "ks = map newKeyInfo (enumerate 0 (splitKeys raw))" "splitKeys raw \<noteq> []"
    by (auto simp: parseApiKeys_def Let_def split: if_splits)
  have len: "0 < length (apiKeys m0)" using ks' by (simp add: m0)
  have idx: "map index (apiKeys m0) = [0..<length (apiKeys m0)]"
    using parseApiKeys_fields(2) [of "splitKeys raw"] by (simp add: m0 ks')
  have cur: "currentIndex m0 < length (apiKeys m0)" using len by (simp add: m0)
  from run_invariant [OF idx cur, of cs] len
  show ?thesis by simp
qed

theorem index_invariant_witness:
  "0 < length (apiKeys (exampleManager oneError))
   \<and> length (apiKeys exhausted) = length (apiKeys (exampleManager oneError))
   \<and> map index (apiKeys exhausted) = [0..<length (apiKeys (exampleManager oneError))]
   \<and> mset (map index (apiKeys exhausted)) = mset [0..<length (apiKeys (exampleManager oneError))]
   \<and> currentIndex exhausted < length (apiKeys (exampleManager oneError))"
  unfolding exhausted_def
  by (rule index_invariant [OF new_exampleManager])

text \<open>
  C9: every call other than \<open>rotateApiKey\<close> leaves \<open>currentIndex\<close> as it is. In
  particular, when the credential at \<open>currentIndex\<close> is inactive, \<open>getCurrentApiKey\<close>
  returns the key of another, active credential without updating \<open>currentIndex\<close>, and a
  following \<open>reportError\<close> increments the error count of the inactive credential at
  \<open>currentIndex\<close> and of no other.
\<close>

theorem currentIndex_frame:
  "((\<forall>now u. c \<noteq> RotateApiKey now u) \<longrightarrow> currentIndex (exec c m) = currentIndex m)
   \<and> (\<forall>k m'. getCurrentApiKey now m = Inr (k, m') \<longrightarrow> currentIndex m' = currentIndex m)
   \<and> currentIndex (reportError msg m) = currentIndex m
   \<and> currentIndex (resetErrorCounts m) = currentIndex m
   \<and> (p < length (apiKeys m) \<and> index (apiKeys m ! p) = currentIndex m
        \<and> (\<forall>q<p. index (apiKeys m ! q) \<noteq> currentIndex m)
        \<and> \<not> isActive (apiKeys m ! p)
        \<and> getCurrentApiKey now m = Inr (k, m')
      \<longrightarrow> currentIndex m' = currentIndex m
          \<and> (\<exists>f<length (apiKeys m). f \<noteq> p \<and> isActive (apiKeys m ! f)
                 \<and> k = key (apiKeys m ! f))
          \<and> errorCount (apiKeys (reportError msg m') ! p) = errorCount (apiKeys m ! p) + 1
          \<and> lastError (apiKeys (reportError msg m') ! p) = Some msg
          \<and> \<not> isActive (apiKeys (reportError msg m') ! p)
          \<and> (\<forall>q<length (apiKeys m). q \<noteq> p \<longrightarrow>
                errorCount (apiKeys (reportError msg m') ! q) = errorCount (apiKeys m ! q)))"
proof (intro conjI impI allI)
  assume "\<forall>now u. c \<noteq> RotateApiKey now u"
  then show "currentIndex (exec c m) = currentIndex m"
    by (simp add: exec_currentIndex_unchanged)
next
  fix k m'
  assume "getCurrentApiKey now m = Inr (k, m')"
  then show "currentIndex m' = currentIndex m" by (rule getCurrentApiKey_frame(1))
next
  show "currentIndex (reportError msg m) = currentIndex m" by (rule reportError_frame(1))
  show "currentIndex (resetErrorCounts m) = currentIndex m" by (rule resetErrorCounts_frame(1))
next
  assume a: "p < length (apiKeys m) \<and> index (apiKeys m ! p) = currentIndex m
        \<and> (\<forall>q<p. index (apiKeys m ! q) \<noteq> currentIndex m)
        \<and> \<not> isActive (apiKeys m ! p)
        \<and> getCurrentApiKey now m = Inr (k, m')"
  then have g: "getCurrentApiKey now m = Inr (k, m')" by simp
  note fr = getCurrentApiKey_frame [OF g]
  have len: "length (apiKeys m') = length (apiKeys m)" by (rule fr(3))
  have ix: "\<And>q. q < length (apiKeys m) \<Longrightarrow> index (apiKeys m' ! q) = index (apiKeys m ! q)"
    using fr(5) by (rule nth_of_map_eq)
  have ec: "\<And>q. q < length (apiKeys m) \<Longrightarrow> errorCount (apiKeys m' ! q) = errorCount (apiKeys m ! q)"
    using fr(7) by (rule nth_of_map_eq)
  have ac: "\<And>q. q < length (apiKeys m) \<Longrightarrow> isActive (apiKeys m' ! q) = isActive (apiKeys m ! q)"
    using fr(6) by (rule nth_of_map_eq)
  from a have p: "p < length (apiKeys m')" by (simp add: len)
  have i: "index (apiKeys m' ! p) = currentIndex m'" using a ix fr(1) by simp
  have f: "\<forall>q<p. index (apiKeys m' ! q) \<noteq> currentIndex m'" using a ix fr(1) by simp
  note re = reportError_found [OF p i f, of msg]
  show "currentIndex m' = currentIndex m" by (rule fr(1))
  have ne: "getActiveKeys m \<noteq> []" using g by (auto simp: getCurrentApiKey_def)
  let ?f = "currentKeyOf m (getActiveKeys m)"
  from getCurrentApiKey_Inr(1) [OF ne, of now] g have "k = key (apiKeys m ! ?f)" by simp
  moreover from getCurrentApiKey_Inr(2,3) [OF ne]
  have "?f < length (apiKeys m)" "isActive (apiKeys m ! ?f)" by simp_all
  moreover from this a have "?f \<noteq> p" by auto
  ultimately show "\<exists>f<length (apiKeys m). f \<noteq> p \<and> isActive (apiKeys m ! f)
                 \<and> k = key (apiKeys m ! f)" by blast
  show "errorCount (apiKeys (reportError msg m') ! p) = errorCount (apiKeys m ! p) + 1"
    using p a ec by (simp add: re)
  show "lastError (apiKeys (reportError msg m') ! p) = Some msg"
    using p by (simp add: re)
  show "\<not> isActive (apiKeys (reportError msg m') ! p)"
    using p a ac by (simp add: re)
  fix q assume "q < length (apiKeys m)" "q \<noteq> p"
  then show "errorCount (apiKeys (reportError msg m') ! q) = errorCount (apiKeys m ! q)"
    using ec [of q] by (simp add: re)
qed

theorem currentIndex_frame_witness:
  "(let m = reportError ''a'' (exampleManager oneError);
        m' = m\<lparr>apiKeys := (apiKeys m)[1 := (apiKeys m ! 1)\<lparr>lastUsed := Some 5\<rparr>]\<rparr>
    in currentIndex m = 0 \<and> \<not> isActive (apiKeys m ! 0)
       \<and> getCurrentApiKey 5 m = Inr (''k2'', m')
       \<and> currentIndex m' = 0
       \<and> errorCount (apiKeys (reportError ''b'' m') ! 0) = 2
       \<and> lastError (apiKeys (reportError ''b'' m') ! 0) = Some ''b''
       \<and> currentIndex (exec GetCurrentApiKeyInfo m) = 0)"
proof -
  let ?m = "reportError ''a'' (exampleManager oneError)"
  let ?m' = "?m\<lparr>apiKeys := (apiKeys ?m)[1 := (apiKeys ?m ! 1)\<lparr>lastUsed := Some 5\<rparr>]\<rparr>"
  have m: "apiKeys ?m ! 0 =
      \<lparr>key = ''k1'', index = 0, isActive = False, errorCount = 1, lastUsed = None,
       lastError = Some ''a''\<rparr>"
    "length (apiKeys ?m) = 3" "currentIndex ?m = 0"
    by (simp_all add: example_defs oneError_def reportError_def)
  have g: "getCurrentApiKey 5 ?m = Inr (''k2'', ?m')"
    by (simp add: example_defs oneError_def reportError_def getCurrentApiKey_def
        getActiveKeys_def currentKeyOf_def Let_def upt_rec)
  have h: "0 < length (apiKeys ?m) \<and> index (apiKeys ?m ! 0) = currentIndex ?m
        \<and> (\<forall>q<0. index (apiKeys ?m ! q) \<noteq> currentIndex ?m)
        \<and> \<not> isActive (apiKeys ?m ! 0)
        \<and> getCurrentApiKey 5 ?m = Inr (''k2'', ?m')"
    using g by (simp add: m)
  have c: "\<forall>now u. GetCurrentApiKeyInfo \<noteq> RotateApiKey now u" by simp
  from currentIndex_frame [of GetCurrentApiKeyInfo ?m 5 "''b''" 0 "''k2''" ?m'] h c
  have "currentIndex ?m' = 0"
    "errorCount (apiKeys (reportError ''b'' ?m') ! 0) = 2"
    "lastError (apiKeys (reportError ''b'' ?m') ! 0) = Some ''b''"
    "currentIndex (exec GetCurrentApiKeyInfo ?m) = 0"
    by (simp_all add: m)
  then show ?thesis
    unfolding Let_def using m g by simp
qed

section \<open>Round-robin\<close>

lemma rotateRoundRobin_all_active:
  assumes idx: "map index (apiKeys m) = [0..<length (apiKeys m)]"
    and cur: "currentIndex m < length (apiKeys m)"
  shows "currentIndex (rotateRoundRobin m [0..<length (apiKeys m)])
           = (currentIndex m + 1) mod length (apiKeys m)"
proof -
  let ?n = "length (apiKeys m)"
  let ?P = "\<lambda>p. index (apiKeys m ! p) = currentIndex m"
  have "findIndex ?P [0..<?n] = int (currentIndex m)"
  proof (rule findIndex_first)
    show "currentIndex m < length [0..<?n]" using cur by simp
    show "?P ([0..<?n] ! currentIndex m)" using cur idx by (simp add: index_nth)
    show "\<forall>j<currentIndex m. \<not> ?P ([0..<?n] ! j)" using cur idx by (simp add: index_nth)
  qed
  moreover have "nat ((int (currentIndex m) + 1) mod int ?n) = (currentIndex m + 1) mod ?n"
    by (simp add: nat_mod_distrib nat_add_distrib)
  moreover have "(currentIndex m + 1) mod ?n < ?n"
    using cur by (intro mod_less_divisor) auto
  ultimately show ?thesis
    using idx by (simp add: rotateRoundRobin_def Let_def index_nth)
qed

text \<open>One rotation of a table whose credentials are all active.\<close>

lemma rotateApiKey_all_active:
  assumes rr: "rotationStrategy (config m) = RoundRobin"
    and idx: "map index (apiKeys m) = [0..<length (apiKeys m)]"
    and cur: "currentIndex m < length (apiKeys m)"
    and act: "\<forall>k\<in>set (apiKeys m). isActive k"
  shows "\<exists>m'. rotateApiKey now u m
              = Inr (key (apiKeys m ! ((currentIndex m + 1) mod length (apiKeys m))), m')
            \<and> currentIndex m' = (currentIndex m + 1) mod length (apiKeys m)
            \<and> config m' = config m
            \<and> map index (apiKeys m') = map index (apiKeys m)
            \<and> map key (apiKeys m') = map key (apiKeys m)
            \<and> map isActive (apiKeys m') = map isActive (apiKeys m)
            \<and> length (apiKeys m') = length (apiKeys m)"
proof -
  let ?n = "length (apiKeys m)"
  let ?c = "(currentIndex m + 1) mod ?n"
  let ?m1 = "rotateRoundRobin m [0..<?n]"
  have ak: "getActiveKeys m = [0..<?n]" using act by (rule getActiveKeys_all_active)
  have n: "0 < ?n" using cur by auto
  have c: "?c < ?n" using n by simp
  have rot: "rotateApiKey now u m = getCurrentApiKey now ?m1"
    using n by (simp add: rotateApiKey_def ak rr)
  have m1: "apiKeys ?m1 = apiKeys m" "config ?m1 = config m"
    by (simp_all add: rotateRoundRobin_def Let_def)
  have c1: "currentIndex ?m1 = ?c" using idx cur by (rule rotateRoundRobin_all_active)
  have ak1: "getActiveKeys ?m1 = [0..<?n]"
    using act by (simp add: getActiveKeys_def m1)
  have "find (\<lambda>p. index (apiKeys m ! p) = ?c) [0..<?n] = Some ?c"
    using c idx by (simp add: find_upt_Some index_nth)
  then have q: "currentKeyOf ?m1 [0..<?n] = ?c"
    by (simp add: currentKeyOf_def m1 c1)
  have ne: "getActiveKeys ?m1 \<noteq> []" using n by (simp add: ak1)
  from getCurrentApiKey_Inr(1) [OF ne, of now]
  have g: "getCurrentApiKey now ?m1 =
      Inr (key (apiKeys m ! ?c),
           ?m1\<lparr>apiKeys := (apiKeys m)[?c := (apiKeys m ! ?c)\<lparr>lastUsed := Some now\<rparr>]\<rparr>)"
    by (simp add: ak1 q m1)
  let ?m' = "?m1\<lparr>apiKeys := (apiKeys m)[?c := (apiKeys m ! ?c)\<lparr>lastUsed := Some now\<rparr>]\<rparr>"
  have "rotateApiKey now u m = Inr (key (apiKeys m ! ?c), ?m')
            \<and> currentIndex ?m' = ?c
            \<and> config ?m' = config m
            \<and> map index (apiKeys ?m') = map index (apiKeys m)
            \<and> map key (apiKeys ?m') = map key (apiKeys m)
            \<and> map isActive (apiKeys ?m') = map isActive (apiKeys m)
            \<and> length (apiKeys ?m') = length (apiKeys m)"
    by (simp add: rot g m1 c1 touch_frame)
  then show ?thesis by (rule exI [of _ ?m'])
qed

lemma run_rotations_all_active:
  assumes "rotationStrategy (config m) = RoundRobin"
    and "map index (apiKeys m) = [0..<length (apiKeys m)]"
    and "currentIndex m < length (apiKeys m)"
    and "\<forall>k\<in>set (apiKeys m). isActive k"
  shows "currentIndex (run (rotations env) m) = (currentIndex m + length env) mod length (apiKeys m)
         \<and> config (run (rotations env) m) = config m
         \<and> map index (apiKeys (run (rotations env) m)) = map index (apiKeys m)
         \<and> map key (apiKeys (run (rotations env) m)) = map key (apiKeys m)
         \<and> map isActive (apiKeys (run (rotations env) m)) = map isActive (apiKeys m)
         \<and> length (apiKeys (run (rotations env) m)) = length (apiKeys m)"
  using assms
proof (induction env arbitrary: m)
  case Nil
  then show ?case by (simp add: rotations_def)
next
  case (Cons e env)
  obtain now u where e: "e = (now, u)" by (cases e)
  let ?n = "length (apiKeys m)"
  from rotateApiKey_all_active [OF Cons.prems, of now u]
  obtain m' where r: "rotateApiKey now u m = Inr (key (apiKeys m ! ((currentIndex m + 1) mod ?n)), m')"
    and m': "currentIndex m' = (currentIndex m + 1) mod ?n" "config m' = config m"
      "map index (apiKeys m') = map index (apiKeys m)"
      "map key (apiKeys m') = map key (apiKeys m)"
      "map isActive (apiKeys m') = map isActive (apiKeys m)"
      "length (apiKeys m') = length (apiKeys m)"
    by blast
  have n: "0 < ?n" using Cons.prems(3) by auto
  have step: "run (rotations (e # env)) m = run (rotations env) m'"
    by (simp add: rotations_def e r)
  have p1: "rotationStrategy (config m') = RoundRobin" using Cons.prems(1) m' by simp
  have p2: "map index (apiKeys m') = [0..<length (apiKeys m')]" using Cons.prems(2) m' by simp
  have p3: "currentIndex m' < length (apiKeys m')" using n m' by simp
  have p4: "\<forall>k\<in>set (apiKeys m'). isActive k"
    using Cons.prems(4) unfolding all_active_map m'(5) .
  have "(currentIndex m' + length env) mod ?n = (currentIndex m + length (e # env)) mod ?n"
    by (simp add: m'(1) mod_add_left_eq)
  then show ?case
    using Cons.IH [OF p1 p2 p3 p4] by (simp add: step m')
qed

lemma rotateApiKey_absent_current:
  assumes rr: "rotationStrategy (config m) = RoundRobin"
    and f: "f < length (apiKeys m)" "isActive (apiKeys m ! f)"
    and first: "\<forall>j<f. \<not> isActive (apiKeys m ! j)"
    and absent: "\<forall>q<length (apiKeys m). isActive (apiKeys m ! q)
                   \<longrightarrow> index (apiKeys m ! q) \<noteq> currentIndex m"
  shows "\<exists>m'. rotateApiKey now u m = Inr (key (apiKeys m ! f), m')
            \<and> currentIndex m' = index (apiKeys m ! f)"
proof -
  let ?rest = "filter (\<lambda>p. isActive (apiKeys m ! p)) [Suc f..<length (apiKeys m)]"
  let ?m1 = "m\<lparr>currentIndex := index (apiKeys m ! f)\<rparr>"
  have ak: "getActiveKeys m = f # ?rest"
    unfolding getActiveKeys_def using f first by (intro filter_upt_first) simp_all
  have "\<forall>p\<in>set (getActiveKeys m). index (apiKeys m ! p) \<noteq> currentIndex m"
    using absent by (simp add: set_getActiveKeys)
  then have "findIndex (\<lambda>p. index (apiKeys m ! p) = currentIndex m) (getActiveKeys m) = - 1"
    by (rule findIndex_none)
  then have rot: "rotateRoundRobin m (getActiveKeys m) = ?m1"
    by (simp add: rotateRoundRobin_def Let_def ak)
  have "rotateApiKey now u m = getCurrentApiKey now ?m1"
    by (simp add: rotateApiKey_def Let_def rr rot) (simp add: ak)
  moreover have "getActiveKeys ?m1 = f # ?rest" using ak by simp
  then have "getCurrentApiKey now ?m1 =
      Inr (key (apiKeys m ! f),
           ?m1\<lparr>apiKeys := (apiKeys m)[f := (apiKeys m ! f)\<lparr>lastUsed := Some now\<rparr>]\<rparr>)"
    using f by (simp add: getCurrentApiKey_def currentKeyOf_def Let_def)
  ultimately have "rotateApiKey now u m =
      Inr (key (apiKeys m ! f),
           ?m1\<lparr>apiKeys := (apiKeys m)[f := (apiKeys m ! f)\<lparr>lastUsed := Some now\<rparr>]\<rparr>)
    \<and> currentIndex (?m1\<lparr>apiKeys := (apiKeys m)[f := (apiKeys m ! f)\<lparr>lastUsed := Some now\<rparr>]\<rparr>)
        = index (apiKeys m ! f)"
    by simp
  then show ?thesis by (rule exI)
qed

text \<open>
  C1: from a freshly constructed manager with three credentials and the round-robin
  strategy, \<open>currentIndex\<close> is \<open>n mod 3\<close> after \<open>n\<close> calls of \<open>rotateApiKey\<close>, that is
  \<open>1, 2, 0, 1, 2, 0, \<dots>\<close>, and each call returns the key at the new index. In any state
  with an active credential in which no active credential has the index \<open>currentIndex\<close>,
  a round-robin \<open>rotateApiKey\<close> selects the first active credential \<open>f\<close>, which has the
  least index among the active ones when the indices are \<open>0, \<dots>, N - 1\<close> in order.
\<close>

theorem round_robin_order:
  "(new_ApiKeyManager raw c = Inr m0 \<and> rotationStrategy (config m0) = RoundRobin
      \<and> length (apiKeys m0) = 3
    \<longrightarrow> currentIndex m0 = 0
        \<and> currentIndex (run (rotations env) m0) = length env mod 3
        \<and> (\<exists>m'. rotateApiKey now u (run (rotations env) m0)
                   = Inr (key (apiKeys m0 ! ((length env + 1) mod 3)), m')
                \<and> currentIndex m' = (length env + 1) mod 3))
   \<and> (rotationStrategy (config m) = RoundRobin
        \<and> f < length (apiKeys m) \<and> isActive (apiKeys m ! f)
        \<and> (\<forall>j<f. \<not> isActive (apiKeys m ! j))
        \<and> (\<forall>q<length (apiKeys m). isActive (apiKeys m ! q)
               \<longrightarrow> index (apiKeys m ! q) \<noteq> currentIndex m)
      \<longrightarrow> (\<exists>m'. rotateApiKey now u m = Inr (key (apiKeys m ! f), m')
               \<and> currentIndex m' = index (apiKeys m ! f)
               \<and> (map index (apiKeys m) = [0..<length (apiKeys m)] \<longrightarrow> currentIndex m' = f)))"
proof (intro conjI impI)
  assume a: "new_ApiKeyManager raw c = Inr m0 \<and> rotationStrategy (config m0) = RoundRobin
      \<and> length (apiKeys m0) = 3"
  then have new: "new_ApiKeyManager raw c = Inr m0"
    and rr: "rotationStrategy (config m0) = RoundRobin" and n: "length (apiKeys m0) = 3"
    by simp_all
  note fresh = new_ApiKeyManager_fresh [OF new]
  have cur: "currentIndex m0 < length (apiKeys m0)" using fresh(1,2) by simp
  let ?m = "run (rotations env) m0"
  from run_rotations_all_active [OF rr fresh(4) cur fresh(5), of env]
  have m: "currentIndex ?m = length env mod 3" "config ?m = config m0"
    "map index (apiKeys ?m) = map index (apiKeys m0)"
    "map key (apiKeys ?m) = map key (apiKeys m0)"
    "map isActive (apiKeys ?m) = map isActive (apiKeys m0)"
    "length (apiKeys ?m) = 3"
    by (simp_all add: fresh(2) n)
  show "currentIndex m0 = 0" by (rule fresh(2))
  show "currentIndex ?m = length env mod 3" by (rule m(1))
  have p1: "rotationStrategy (config ?m) = RoundRobin" using rr m by simp
  have p2: "map index (apiKeys ?m) = [0..<length (apiKeys ?m)]" using fresh(4) m n by simp
  have p3: "currentIndex ?m < length (apiKeys ?m)" using m by simp
  have p4: "\<forall>k\<in>set (apiKeys ?m). isActive k"
    using fresh(5) unfolding all_active_map m(5) .
  have "(length env mod 3 + 1) mod 3 = (length env + 1) mod 3"
    by (rule mod_add_left_eq)
  moreover have "key (apiKeys ?m ! ((length env + 1) mod 3))
               = key (apiKeys m0 ! ((length env + 1) mod 3))"
    using m(4) by (rule nth_of_map_eq) (simp add: n)
  ultimately show "\<exists>m'. rotateApiKey now u ?m
                   = Inr (key (apiKeys m0 ! ((length env + 1) mod 3)), m')
                \<and> currentIndex m' = (length env + 1) mod 3"
    using rotateApiKey_all_active [OF p1 p2 p3 p4, of now u] by (auto simp: m)
next
  assume a: "rotationStrategy (config m) = RoundRobin
        \<and> f < length (apiKeys m) \<and> isActive (apiKeys m ! f)
        \<and> (\<forall>j<f. \<not> isActive (apiKeys m ! j))
        \<and> (\<forall>q<length (apiKeys m). isActive (apiKeys m ! q)
               \<longrightarrow> index (apiKeys m ! q) \<noteq> currentIndex m)"
  then have rr: "rotationStrategy (config m) = RoundRobin"
    and f: "f < length (apiKeys m)" "isActive (apiKeys m ! f)"
    and first: "\<forall>j<f. \<not> isActive (apiKeys m ! j)"
    and absent: "\<forall>q<length (apiKeys m). isActive (apiKeys m ! q)
                   \<longrightarrow> index (apiKeys m ! q) \<noteq> currentIndex m"
    by simp_all
  from rotateApiKey_absent_current [OF rr f first absent, of now u]
  obtain m' where "rotateApiKey now u m = Inr (key (apiKeys m ! f), m')"
    "currentIndex m' = index (apiKeys m ! f)" by blast
  moreover have "map index (apiKeys m) = [0..<length (apiKeys m)] \<longrightarrow> index (apiKeys m ! f) = f"
    using f(1) by (simp add: index_nth)
  ultimately show "\<exists>m'. rotateApiKey now u m = Inr (key (apiKeys m ! f), m')
               \<and> currentIndex m' = index (apiKeys m ! f)
               \<and> (map index (apiKeys m) = [0..<length (apiKeys m)] \<longrightarrow> currentIndex m' = f)"
    by auto
qed

theorem round_robin_order_witness:
  "map (\<lambda>n. currentIndex (run (rotations (replicate n (0, 0))) (exampleManager emptyConfig)))
       [1, 2, 3, 4, 5, 6] = [1, 2, 0, 1, 2, 0]
   \<and> (\<exists>m'. rotateApiKey 5 0 (reportError ''a'' (exampleManager oneError)) = Inr (''k2'', m')
          \<and> currentIndex m' = 1)"
proof -
  let ?m0 = "exampleManager emptyConfig"
  have h: "new_ApiKeyManager ''k1;k2;k3'' emptyConfig = Inr ?m0
      \<and> rotationStrategy (config ?m0) = RoundRobin \<and> length (apiKeys ?m0) = 3"
    by (simp add: new_exampleManager example_defs)
  have seq: "currentIndex (run (rotations (replicate n (0, 0))) ?m0) = n mod 3" for n
    using round_robin_order [THEN conjunct1, THEN mp, OF h, of "replicate n (0, 0)"] by simp
  let ?m = "reportError ''a'' (exampleManager oneError)"
  have ks: "apiKeys ?m =
      [\<lparr>key = ''k1'', index = 0, isActive = False, errorCount = 1, lastUsed = None,
        lastError = Some ''a''\<rparr>,
       \<lparr>key = ''k2'', index = 1, isActive = True, errorCount = 0, lastUsed = None,
        lastError = None\<rparr>,
       \<lparr>key = ''k3'', index = 2, isActive = True, errorCount = 0, lastUsed = None,
        lastError = None\<rparr>]"
    "currentIndex ?m = 0" "rotationStrategy (config ?m) = RoundRobin"
    by (simp_all add: example_defs oneError_def reportError_def)
  have g: "rotationStrategy (config ?m) = RoundRobin
        \<and> 1 < length (apiKeys ?m) \<and> isActive (apiKeys ?m ! 1)
        \<and> (\<forall>j<1. \<not> isActive (apiKeys ?m ! j))
        \<and> (\<forall>q<length (apiKeys ?m). isActive (apiKeys ?m ! q)
               \<longrightarrow> index (apiKeys ?m ! q) \<noteq> currentIndex ?m)"
    by (simp add: ks All_less_Suc)
  from round_robin_order [THEN conjunct2, THEN mp, OF g, of 5 0]
  have "\<exists>m'. rotateApiKey 5 0 ?m = Inr (''k2'', m') \<and> currentIndex m' = 1"
    by (simp add: ks)
  then show ?thesis by (simp add: seq)
qed

section \<open>Least errors\<close>

lemma rotateLeastErrors_first_min:
  assumes ne: "getActiveKeys m \<noteq> []"
  defines "q \<equiv> sort_key (\<lambda>p. errorCount (apiKeys m ! p)) (getActiveKeys m) ! 0"
  shows "rotateLeastErrors m (getActiveKeys m) = m\<lparr>currentIndex := index (apiKeys m ! q)\<rparr>"
    and "q \<in> set (getActiveKeys m)"
    and "\<forall>j<length (apiKeys m). isActive (apiKeys m ! j)
            \<longrightarrow> errorCount (apiKeys m ! q) \<le> errorCount (apiKeys m ! j)"
    and "\<forall>j<length (apiKeys m). isActive (apiKeys m ! j)
            \<and> errorCount (apiKeys m ! j) = errorCount (apiKeys m ! q) \<longrightarrow> q \<le> j"
proof -
  let ?f = "\<lambda>p. errorCount (apiKeys m ! p)"
  note sk = sort_key_first [OF ne, of ?f, folded q_def]
  show "rotateLeastErrors m (getActiveKeys m) = m\<lparr>currentIndex := index (apiKeys m ! q)\<rparr>"
    by (simp add: rotateLeastErrors_def Let_def q_def)
  show "q \<in> set (getActiveKeys m)" by (rule sk(1))
  show "\<forall>j<length (apiKeys m). isActive (apiKeys m ! j)
            \<longrightarrow> errorCount (apiKeys m ! q) \<le> errorCount (apiKeys m ! j)"
    using sk(2) by (simp add: set_getActiveKeys)
  show "\<forall>j<length (apiKeys m). isActive (apiKeys m ! j)
            \<and> errorCount (apiKeys m ! j) = errorCount (apiKeys m ! q) \<longrightarrow> q \<le> j"
  proof (intro allI impI)
    fix j
    assume "j < length (apiKeys m)"
      and "isActive (apiKeys m ! j) \<and> errorCount (apiKeys m ! j) = errorCount (apiKeys m ! q)"
    then have "j \<in> set (getActiveKeys m)" "?f j = ?f q" by (simp_all add: set_getActiveKeys)
    with hd_filter_least [OF sorted_getActiveKeys(1), of j m "\<lambda>y. ?f y = ?f q"]
    have "hd (filter (\<lambda>y. ?f y = ?f q) (getActiveKeys m)) \<le> j" by simp
    then show "q \<le> j" by (subst sk(3))
  qed
qed

lemma rotateApiKey_least_errors:
  assumes le: "rotationStrategy (config m) = LeastErrors"
    and idx: "map index (apiKeys m) = [0..<length (apiKeys m)]"
    and ne: "getActiveKeys m \<noteq> []"
  shows "\<exists>q m'. rotateApiKey now u m = Inr (key (apiKeys m ! q), m')
           \<and> currentIndex m' = q \<and> q < length (apiKeys m) \<and> index (apiKeys m ! q) = q
           \<and> isActive (apiKeys m ! q)
           \<and> (\<forall>j<length (apiKeys m). isActive (apiKeys m ! j)
                 \<longrightarrow> errorCount (apiKeys m ! q) \<le> errorCount (apiKeys m ! j))
           \<and> (\<forall>j<length (apiKeys m). isActive (apiKeys m ! j)
                 \<and> errorCount (apiKeys m ! j) = errorCount (apiKeys m ! q) \<longrightarrow> q \<le> j)"
proof -
  let ?q = "sort_key (\<lambda>p. errorCount (apiKeys m ! p)) (getActiveKeys m) ! 0"
  let ?m1 = "m\<lparr>currentIndex := index (apiKeys m ! ?q)\<rparr>"
  let ?r = "currentKeyOf ?m1 (getActiveKeys m)"
  let ?m' = "?m1\<lparr>apiKeys := (apiKeys m)[?r := (apiKeys m ! ?r)\<lparr>lastUsed := Some now\<rparr>]\<rparr>"
  note fm = rotateLeastErrors_first_min [OF ne]
  have q: "?q < length (apiKeys m)" "isActive (apiKeys m ! ?q)"
    using fm(2) by (simp_all add: set_getActiveKeys)
  have iq: "index (apiKeys m ! ?q) = ?q" using idx q(1) by (rule index_nth)
  have "rotateApiKey now u m = getCurrentApiKey now ?m1"
    using ne by (simp add: rotateApiKey_def Let_def le fm(1))
  also have "\<dots> = Inr (key (apiKeys m ! ?r), ?m')"
    by (rule rotate_then_current(1) [OF fm(2)])
  finally have rot: "rotateApiKey now u m = Inr (key (apiKeys m ! ?r), ?m')" .
  have "?r < length (apiKeys m)" "index (apiKeys m ! ?r) = index (apiKeys m ! ?q)"
    by (rule rotate_then_current(2,4) [OF fm(2)])+
  then have r: "?r = ?q" using idx iq by (simp add: index_nth)
  have "rotateApiKey now u m = Inr (key (apiKeys m ! ?q), ?m')
           \<and> currentIndex ?m' = ?q \<and> ?q < length (apiKeys m) \<and> index (apiKeys m ! ?q) = ?q
           \<and> isActive (apiKeys m ! ?q)
           \<and> (\<forall>j<length (apiKeys m). isActive (apiKeys m ! j)
                 \<longrightarrow> errorCount (apiKeys m ! ?q) \<le> errorCount (apiKeys m ! j))
           \<and> (\<forall>j<length (apiKeys m). isActive (apiKeys m ! j)
                 \<and> errorCount (apiKeys m ! j) = errorCount (apiKeys m ! ?q) \<longrightarrow> ?q \<le> j)"
    using rot q iq fm(3,4) unfolding r by simp
  then show ?thesis by blast
qed

lemma twoTwoZero_fields:
  "rotationStrategy (config twoTwoZero) = LeastErrors"
  "map index (apiKeys twoTwoZero) = [0, 1, 2]"
  "map isActive (apiKeys twoTwoZero) = [True, True, True]"
  "map errorCount (apiKeys twoTwoZero) = [2, 2, 0]"
  "key (apiKeys twoTwoZero ! 2) = ''k3''"
  by code_simp+

text \<open>
  C5: under the least-errors strategy, in a state whose indices are \<open>0, \<dots>, N - 1\<close> in order
  and which has an active credential, \<open>rotateApiKey\<close> sets \<open>currentIndex\<close> to the index of
  an active credential whose \<open>errorCount\<close> is the smallest among the active ones, and
  among the active credentials with that count to the one with the lowest index. With
  three active credentials whose error counts are \<open>2, 2, 0\<close> it selects index \<open>2\<close>.
\<close>

theorem least_errors_selection:
  "(rotationStrategy (config m) = LeastErrors
      \<and> map index (apiKeys m) = [0..<length (apiKeys m)]
      \<and> (\<exists>k\<in>set (apiKeys m). isActive k)
    \<longrightarrow> (\<exists>q m'. rotateApiKey now u m = Inr (key (apiKeys m ! q), m')
           \<and> currentIndex m' = q \<and> q < length (apiKeys m) \<and> index (apiKeys m ! q) = q
           \<and> isActive (apiKeys m ! q)
           \<and> (\<forall>j<length (apiKeys m). isActive (apiKeys m ! j)
                 \<longrightarrow> errorCount (apiKeys m ! q) \<le> errorCount (apiKeys m ! j))
           \<and> (\<forall>j<length (apiKeys m). isActive (apiKeys m ! j)
                 \<and> errorCount (apiKeys m ! j) = errorCount (apiKeys m ! q) \<longrightarrow> q \<le> j)))
   \<and> (rotationStrategy (config m) = LeastErrors
        \<and> map index (apiKeys m) = [0, 1, 2]
        \<and> map isActive (apiKeys m) = [True, True, True]
        \<and> map errorCount (apiKeys m) = [2, 2, 0]
      \<longrightarrow> (\<exists>m'. rotateApiKey now u m = Inr (key (apiKeys m ! 2), m') \<and> currentIndex m' = 2))"
proof (intro conjI impI)
  assume a: "rotationStrategy (config m) = LeastErrors
      \<and> map index (apiKeys m) = [0..<length (apiKeys m)]
      \<and> (\<exists>k\<in>set (apiKeys m). isActive k)"
  then have "getActiveKeys m \<noteq> []" by (simp add: getActiveKeys_Nil_iff)
  with a show "\<exists>q m'. rotateApiKey now u m = Inr (key (apiKeys m ! q), m')
           \<and> currentIndex m' = q \<and> q < length (apiKeys m) \<and> index (apiKeys m ! q) = q
           \<and> isActive (apiKeys m ! q)
           \<and> (\<forall>j<length (apiKeys m). isActive (apiKeys m ! j)
                 \<longrightarrow> errorCount (apiKeys m ! q) \<le> errorCount (apiKeys m ! j))
           \<and> (\<forall>j<length (apiKeys m). isActive (apiKeys m ! j)
                 \<and> errorCount (apiKeys m ! j) = errorCount (apiKeys m ! q) \<longrightarrow> q \<le> j)"
    by (intro rotateApiKey_least_errors) simp_all
next
  assume a: "rotationStrategy (config m) = LeastErrors
        \<and> map index (apiKeys m) = [0, 1, 2]
        \<and> map isActive (apiKeys m) = [True, True, True]
        \<and> map errorCount (apiKeys m) = [2, 2, 0]"
  then have "length (map index (apiKeys m)) = 3" by simp
  then have len: "length (apiKeys m) = 3" by simp
  have nth: "f (apiKeys m ! j) = map f (apiKeys m) ! j" if "j < 3" for j and f :: "ApiKeyInfo \<Rightarrow> 'b"
    using that len by simp
  have idx: "map index (apiKeys m) = [0..<length (apiKeys m)]"
    using a by (simp add: len upt_rec numeral_3_eq_3)
  have act: "isActive (apiKeys m ! 2)" using a by (simp add: nth)
  then have ne: "getActiveKeys m \<noteq> []" using len by (auto simp: getActiveKeys_Nil_iff)
  from a have le: "rotationStrategy (config m) = LeastErrors" by simp
  from rotateApiKey_least_errors [OF le idx ne, of now u]
  obtain q m' where r: "rotateApiKey now u m = Inr (key (apiKeys m ! q), m')"
    "currentIndex m' = q" "q < length (apiKeys m)"
    and mn: "\<forall>j<length (apiKeys m). isActive (apiKeys m ! j)
                 \<longrightarrow> errorCount (apiKeys m ! q) \<le> errorCount (apiKeys m ! j)"
    by blast
  from mn act len have z: "errorCount (apiKeys m ! q) \<le> errorCount (apiKeys m ! 2)" by simp
  have e: "errorCount (apiKeys m ! 0) = 2" "errorCount (apiKeys m ! 1) = 2"
    "errorCount (apiKeys m ! 2) = 0"
    using a by (simp_all add: nth)
  have "q = 0 \<or> q = 1 \<or> q = 2" using r(3) len by auto
  then have "q = 2" using z e by auto
  with r show "\<exists>m'. rotateApiKey now u m = Inr (key (apiKeys m ! 2), m') \<and> currentIndex m' = 2"
    by auto
qed

theorem least_errors_selection_witness:
  "(\<exists>m'. rotateApiKey 9 0 twoTwoZero = Inr (''k3'', m') \<and> currentIndex m' = 2)
   \<and> (\<exists>q m'. rotateApiKey 1 0 (exampleManager byLeastErrors)
                = Inr (key (apiKeys (exampleManager byLeastErrors) ! q), m')
            \<and> currentIndex m' = q \<and> q < length (apiKeys (exampleManager byLeastErrors)))"
proof -
  have h: "rotationStrategy (config twoTwoZero) = LeastErrors
        \<and> map index (apiKeys twoTwoZero) = [0, 1, 2]
        \<and> map isActive (apiKeys twoTwoZero) = [True, True, True]
        \<and> map errorCount (apiKeys twoTwoZero) = [2, 2, 0]"
    by (simp only: twoTwoZero_fields)
  from least_errors_selection [THEN conjunct2, THEN mp, OF h, of 9 0]
  have one: "\<exists>m'. rotateApiKey 9 0 twoTwoZero = Inr (''k3'', m') \<and> currentIndex m' = 2"
    by (simp only: twoTwoZero_fields)
  let ?m0 = "exampleManager byLeastErrors"
  have h0: "rotationStrategy (config ?m0) = LeastErrors
      \<and> map index (apiKeys ?m0) = [0..<length (apiKeys ?m0)]
      \<and> (\<exists>k\<in>set (apiKeys ?m0). isActive k)"
    by (simp add: example_defs byLeastErrors_def upt_rec numeral_3_eq_3)
  from least_errors_selection [THEN conjunct1, THEN mp, OF h0, of 1 0]
  have two: "\<exists>q m'. rotateApiKey 1 0 ?m0 = Inr (key (apiKeys ?m0 ! q), m')
            \<and> currentIndex m' = q \<and> q < length (apiKeys ?m0)"
    by blast
  from one two show ?thesis ..
qed

section \<open>Re-initialising the global instance\<close>

text \<open>
  C10: when the raw string is empty or all whitespace, or leaves no piece after parsing,
  \<open>initializeApiKeyManager\<close> propagates the constructor's error and the global instance
  (or its absence) is what it was before, so \<open>getApiKeyManager\<close> returns the same as
  before the failed call.
\<close>

theorem initialize_failure_keeps_global:
  "(raw = [] \<or> (\<forall>ch\<in>set raw. isWhiteSpace ch)
      \<longrightarrow> initializeApiKeyManager raw c g = (Inl NoApiKeysProvided, g))
   \<and> (\<not> (\<forall>ch\<in>set raw. isWhiteSpace ch)
        \<and> filter (\<lambda>t. t \<noteq> []) (map trim (splitOn CHR '';'' raw)) = []
      \<longrightarrow> initializeApiKeyManager raw c g = (Inl NoValidApiKeysFound, g))
   \<and> (\<forall>e. fst (initializeApiKeyManager raw c g) = Inl e
      \<longrightarrow> getApiKeyManager (snd (initializeApiKeyManager raw c g)) = getApiKeyManager g)"
proof (intro conjI impI allI)
  assume "raw = [] \<or> (\<forall>ch\<in>set raw. isWhiteSpace ch)"
  then show "initializeApiKeyManager raw c g = (Inl NoApiKeysProvided, g)"
    by (simp add: initializeApiKeyManager_def new_ApiKeyManager_empty)
next
  assume "\<not> (\<forall>ch\<in>set raw. isWhiteSpace ch)
        \<and> filter (\<lambda>t. t \<noteq> []) (map trim (splitOn CHR '';'' raw)) = []"
  then show "initializeApiKeyManager raw c g = (Inl NoValidApiKeysFound, g)"
    by (simp add: initializeApiKeyManager_def new_ApiKeyManager_no_valid)
next
  fix e
  assume "fst (initializeApiKeyManager raw c g) = Inl e"
  then show "getApiKeyManager (snd (initializeApiKeyManager raw c g)) = getApiKeyManager g"
    by (simp add: initializeApiKeyManager_def split: sum.splits)
qed

theorem initialize_failure_keeps_global_witness:
  "initializeApiKeyManager ''  '' None (Some (exampleManager emptyConfig))
      = (Inl NoApiKeysProvided, Some (exampleManager emptyConfig))
   \<and> initializeApiKeyManager '';;'' (Some oneError) None = (Inl NoValidApiKeysFound, None)
   \<and> getApiKeyManager (snd (initializeApiKeyManager '';;'' None (Some exhausted)))
      = getApiKeyManager (Some exhausted)"
proof -
  have h1: "''  '' = [] \<or> (\<forall>ch\<in>set ''  ''. isWhiteSpace ch)"
    by (simp add: isWhiteSpace_def)
  have h2: "\<not> (\<forall>ch\<in>set '';;''. isWhiteSpace ch)
        \<and> filter (\<lambda>t. t \<noteq> []) (map trim (splitOn CHR '';'' '';;'')) = []"
    by (simp add: isWhiteSpace_def trim_def)
  note a = initialize_failure_keeps_global [of "''  ''" None "Some (exampleManager emptyConfig)"]
  note b = initialize_failure_keeps_global [of "'';;''" "Some oneError" None]
  note c = initialize_failure_keeps_global [of "'';;''" None "Some exhausted"]
  from c h2 have "fst (initializeApiKeyManager '';;'' None (Some exhausted)) = Inl NoValidApiKeysFound"
    by simp
  with c have "getApiKeyManager (snd (initializeApiKeyManager '';;'' None (Some exhausted)))
      = getApiKeyManager (Some exhausted)" by blast
  with a b h1 h2 show ?thesis by blast
qed

end
